theory Spec2Isabelle
  imports Main
begin

section \<open>The LRU cache of lru.py\<close>

text \<open>
  Python values that may be \<^verbatim>\<open>None\<close> are modelled as options: \<open>None\<close> is Python's
  \<^verbatim>\<open>None\<close> and \<open>Some x\<close> is any other value. Keys and stored objects are such values,
  because the code compares \<^verbatim>\<open>node.key\<close> with \<^verbatim>\<open>None\<close> and nothing stops a caller from
  passing \<^verbatim>\<open>None\<close> as a key or as an object.
\<close>

datatype error = KeyError | AssertionError

subsection \<open>Nodes and the heap\<close>

text \<open>
  The class \<^verbatim>\<open>dlnode\<close> (lines 52-59). The nodes live in an explicit store, the list
  \<open>nodes\<close> of the cache; a reference to a node is its index in that list, and creating a
  node appends it. The field \<^verbatim>\<open>next\<close> is called \<open>nxt\<close> here.
\<close>

record ('k, 'v) dlnode =
  nxt :: nat
  prev :: nat
  key :: "'k option"
  obj :: "'v option"

definition dlnode_init :: "nat \<Rightarrow> ('k, 'v) dlnode" where
  "dlnode_init self = \<lparr>nxt = self, prev = self, key = None, obj = None\<rparr>"

text \<open>Assignments to one field of the node at a reference.\<close>

definition set_nxt :: "('k, 'v) dlnode list \<Rightarrow> nat \<Rightarrow> nat \<Rightarrow> ('k, 'v) dlnode list" where
  "set_nxt ns i v = ns[i := (ns ! i)\<lparr>nxt := v\<rparr>]"

definition set_prev :: "('k, 'v) dlnode list \<Rightarrow> nat \<Rightarrow> nat \<Rightarrow> ('k, 'v) dlnode list" where
  "set_prev ns i v = ns[i := (ns ! i)\<lparr>prev := v\<rparr>]"

definition set_key :: "('k, 'v) dlnode list \<Rightarrow> nat \<Rightarrow> 'k option \<Rightarrow> ('k, 'v) dlnode list" where
  "set_key ns i v = ns[i := (ns ! i)\<lparr>key := v\<rparr>]"

definition set_obj :: "('k, 'v) dlnode list \<Rightarrow> nat \<Rightarrow> 'v option \<Rightarrow> ('k, 'v) dlnode list" where
  "set_obj ns i v = ns[i := (ns ! i)\<lparr>obj := v\<rparr>]"

subsection \<open>The cache\<close>

text \<open>
  The class \<^verbatim>\<open>lrucache\<close>: the dictionary \<^verbatim>\<open>table\<close> from keys to nodes, the reference
  \<^verbatim>\<open>head\<close>, and the store of the nodes.
\<close>

record ('k, 'v) lrucache =
  table :: "'k option \<rightharpoonup> nat"
  head :: nat
  nodes :: "('k, 'v) dlnode list"

text \<open>Python's \<^verbatim>\<open>del d[k]\<close>, which raises \<^verbatim>\<open>KeyError\<close> when the key is missing.\<close>

definition dict_del :: "('a \<rightharpoonup> 'b) \<Rightarrow> 'a \<Rightarrow> error + ('a \<rightharpoonup> 'b)" where
  "dict_del d k = (case d k of None \<Rightarrow> Inl KeyError | Some _ \<Rightarrow> Inr (d(k := None)))"

text \<open>
  The constructor (lines 38-74). \<open>link_node\<close> is the body of its loop: a new node is
  created and linked in directly after the head node.
\<close>

definition link_node :: "('k, 'v) lrucache \<Rightarrow> ('k, 'v) lrucache" where
  "link_node c =
     (let node = length (nodes c);
          ns0 = nodes c @ [dlnode_init node];
          ns1 = set_prev ns0 node (head c);
          ns2 = set_nxt ns1 node (nxt (ns1 ! head c));
          ns3 = set_prev ns2 (nxt (ns2 ! head c)) node;
          ns4 = set_nxt ns3 (head c) node
      in c\<lparr>nodes := ns4\<rparr>)"

fun init_loop :: "nat \<Rightarrow> ('k, 'v) lrucache \<Rightarrow> ('k, 'v) lrucache" where
  "init_loop 0 c = c"
| "init_loop (Suc n) c = init_loop n (link_node c)"

definition lrucache_init :: "int \<Rightarrow> error + ('k, 'v) lrucache" where
  "lrucache_init sz =
     (if sz > 0
      then Inr (init_loop (nat (sz - 1))
                  \<lparr>table = Map.empty, head = 0, nodes = [dlnode_init 0]\<rparr>)
      else Inl AssertionError)"

text \<open>\<^verbatim>\<open>__len__\<close>, \<^verbatim>\<open>clear\<close> and \<^verbatim>\<open>__contains__\<close> (lines 76-83).\<close>

definition len :: "('k, 'v) lrucache \<Rightarrow> nat" where
  "len c = card (dom (table c))"

definition clear :: "('k, 'v) lrucache \<Rightarrow> ('k, 'v) lrucache" where
  "clear c = c\<lparr>table := Map.empty\<rparr>"

definition contains :: "('k, 'v) lrucache \<Rightarrow> 'k option \<Rightarrow> bool" where
  "contains c k = (table c k \<noteq> None)"

text \<open>
  \<^verbatim>\<open>mtf\<close> (lines 197-206): six assignments, each reading the store the previous ones
  have left.
\<close>

definition mtf :: "('k, 'v) lrucache \<Rightarrow> nat \<Rightarrow> ('k, 'v) lrucache" where
  "mtf c node =
     (let ns0 = nodes c;
          ns1 = set_nxt ns0 (prev (ns0 ! node)) (nxt (ns0 ! node));
          ns2 = set_prev ns1 (nxt (ns1 ! node)) (prev (ns1 ! node));
          ns3 = set_prev ns2 node (prev (ns2 ! head c));
          ns4 = set_nxt ns3 node (nxt (ns3 ! (prev (ns3 ! head c))));
          ns5 = set_prev ns4 (nxt (ns4 ! node)) node;
          ns6 = set_nxt ns5 (prev (ns5 ! node)) node
      in c\<lparr>nodes := ns6\<rparr>)"

text \<open>
  \<^verbatim>\<open>__getitem__\<close> (lines 86-98). The lookup \<^verbatim>\<open>self.table[key]\<close> raises \<^verbatim>\<open>KeyError\<close>
  before anything is changed.
\<close>

definition getitem ::
  "('k, 'v) lrucache \<Rightarrow> 'k option \<Rightarrow> error + ('v option \<times> ('k, 'v) lrucache)" where
  "getitem c k =
     (case table c k of
        None \<Rightarrow> Inl KeyError
      | Some node \<Rightarrow>
          (let c1 = mtf c node;
               c2 = c1\<lparr>head := node\<rparr>
           in Inr (obj (nodes c2 ! node), c2)))"

text \<open>
  \<^verbatim>\<open>__setitem__\<close> (lines 101-149). On the insert path the only statement that can raise
  is \<^verbatim>\<open>del self.table[node.key]\<close>, and it comes before every assignment.
\<close>

definition setitem ::
  "('k, 'v) lrucache \<Rightarrow> 'k option \<Rightarrow> 'v option \<Rightarrow> error + ('k, 'v) lrucache" where
  "setitem c k v =
     (case table c k of
        Some node \<Rightarrow>
          (let c1 = c\<lparr>nodes := set_obj (nodes c) node v\<rparr>;
               c2 = mtf c1 node
           in Inr (c2\<lparr>head := node\<rparr>))
      | None \<Rightarrow>
          (let node = prev (nodes c ! head c) in
           case (if key (nodes c ! node) \<noteq> None
                 then dict_del (table c) (key (nodes c ! node))
                 else Inr (table c)) of
             Inl e \<Rightarrow> Inl e
           | Inr t1 \<Rightarrow>
               (let ns1 = set_key (nodes c) node k;
                    ns2 = set_obj ns1 node v;
                    t2 = t1(key (ns2 ! node) \<mapsto> node)
                in Inr \<lparr>table = t2, head = node, nodes = ns2\<rparr>)))"

text \<open>
  \<^verbatim>\<open>__delitem__\<close> (lines 152-172). As in \<^verbatim>\<open>__getitem__\<close>, the first statement is the
  lookup \<^verbatim>\<open>self.table[key]\<close>.
\<close>

definition delitem :: "('k, 'v) lrucache \<Rightarrow> 'k option \<Rightarrow> error + ('k, 'v) lrucache" where
  "delitem c k =
     (case table c k of
        None \<Rightarrow> Inl KeyError
      | Some node \<Rightarrow>
          (case dict_del (table c) k of
             Inl e \<Rightarrow> Inl e
           | Inr t1 \<Rightarrow>
               (let ns1 = set_key (nodes c) node None;
                    ns2 = set_obj ns1 node None;
                    c1 = mtf \<lparr>table = t1, head = head c, nodes = ns2\<rparr> node
                in Inr (c1\<lparr>head := nxt (nodes c1 ! node)\<rparr>))))"

subsection \<open>Sequences of operations\<close>

text \<open>
  A caller's use of the cache is a list of operations. An operation that raises has not
  changed the cache (the raising statement is the first one that could change it), so
  the caller goes on with the cache as it was.
\<close>

datatype ('k, 'v) op =
  Get "'k option" | Set "'k option" "'v option" | Delete "'k option" | Clear

fun step :: "('k, 'v) lrucache \<Rightarrow> ('k, 'v) op \<Rightarrow> ('k, 'v) lrucache" where
  "step c (Get k) = (case getitem c k of Inl e \<Rightarrow> c | Inr (v, c') \<Rightarrow> c')"
| "step c (Set k v) = (case setitem c k v of Inl e \<Rightarrow> c | Inr c' \<Rightarrow> c')"
| "step c (Delete k) = (case delitem c k of Inl e \<Rightarrow> c | Inr c' \<Rightarrow> c')"
| "step c Clear = clear c"

definition run :: "('k, 'v) lrucache \<Rightarrow> ('k, 'v) op list \<Rightarrow> ('k, 'v) lrucache" where
  "run c ops = foldl step c ops"

text \<open>
  The walk of the self-test (lines 317-321): from a node, follow \<^verbatim>\<open>next\<close> a number of
  times and collect the nodes met. \<open>ring\<close> walks once around from the head, and
  \<open>contents\<close> is the list \<^verbatim>\<open>q\<close> of the self-test.
\<close>

fun walk :: "('k, 'v) dlnode list \<Rightarrow> nat \<Rightarrow> nat \<Rightarrow> nat list" where
  "walk ns n 0 = []"
| "walk ns n (Suc j) = n # walk ns (nxt (ns ! n)) j"

definition ring :: "('k, 'v) lrucache \<Rightarrow> nat list" where
  "ring c = walk (nodes c) (head c) (length (nodes c))"

definition contents :: "('k, 'v) lrucache \<Rightarrow> ('k option \<times> 'v option) list" where
  "contents c =
     map (\<lambda>n. (key (nodes c ! n), obj (nodes c ! n))) (walk (nodes c) (head c) (len c))"

subsection \<open>Well-formed rings\<close>

text \<open>
  \<open>seg ns xs\<close>: in the store \<open>ns\<close>, each node of the list \<open>xs\<close> has the following one
  as its \<^verbatim>\<open>next\<close>, and is the \<^verbatim>\<open>prev\<close> of it. \<open>is_ring ns r\<close>: the list \<open>r\<close> names
  every node of the store once and is closed into a circle by the links of its last
  node to its first. A cache is well formed when its walk from the head is such a ring.
\<close>

fun seg :: "('k, 'v) dlnode list \<Rightarrow> nat list \<Rightarrow> bool" where
  "seg ns [] = True"
| "seg ns [x] = True"
| "seg ns (x # y # zs) = (nxt (ns ! x) = y \<and> prev (ns ! y) = x \<and> seg ns (y # zs))"

definition is_ring :: "('k, 'v) dlnode list \<Rightarrow> nat list \<Rightarrow> bool" where
  "is_ring ns r \<longleftrightarrow>
     r \<noteq> [] \<and> distinct r \<and> set r = {..<length ns} \<and> seg ns r \<and>
     nxt (ns ! last r) = hd r \<and> prev (ns ! hd r) = last r"

definition ring_ok :: "('k, 'v) lrucache \<Rightarrow> bool" where
  "ring_ok c \<longleftrightarrow> is_ring (nodes c) (ring c)"

text \<open>A store in which no node holds anything, as the constructor leaves it.\<close>

definition all_empty :: "('k, 'v) lrucache \<Rightarrow> bool" where
  "all_empty c \<longleftrightarrow> (\<forall>j<length (nodes c). key (nodes c ! j) = None \<and> obj (nodes c ! j) = None)"

text \<open>
  The table is finite and every entry of it refers to a node of the store; with a
  well-formed ring this is what every sequence of operations keeps, whatever its keys.
\<close>

definition refs_ok :: "('k, 'v) lrucache \<Rightarrow> bool" where
  "refs_ok c \<longleftrightarrow> finite (dom (table c)) \<and> (\<forall>k n. table c k = Some n \<longrightarrow> n < length (nodes c))"

definition cache_wf :: "('k, 'v) lrucache \<Rightarrow> bool" where
  "cache_wf c \<longleftrightarrow> ring_ok c \<and> refs_ok c"

subsection \<open>Proper keys and objects\<close>

text \<open>
  The operations of a sequence that set something under a key other than \<^verbatim>\<open>None\<close>, and
  those that moreover store an object other than \<^verbatim>\<open>None\<close>.
\<close>

fun proper_key :: "('k, 'v) op \<Rightarrow> bool" where
  "proper_key (Set k v) = (k \<noteq> None)"
| "proper_key _ = True"

fun proper_item :: "('k, 'v) op \<Rightarrow> bool" where
  "proper_item (Set k v) = (k \<noteq> None \<and> v \<noteq> None)"
| "proper_item _ = True"

text \<open>Every entry of the table refers to a node that holds the entry's key.\<close>

definition tbl_ok :: "('k, 'v) lrucache \<Rightarrow> bool" where
  "tbl_ok c \<longleftrightarrow> (\<forall>k n. table c k = Some n \<longrightarrow> key (nodes c ! n) = k \<and> k \<noteq> None)"

text \<open>A node has no key exactly when it has no object.\<close>

definition val_ok :: "('k, 'v) lrucache \<Rightarrow> bool" where
  "val_ok c \<longleftrightarrow>
     (\<forall>n<length (nodes c). (key (nodes c ! n) = None) = (obj (nodes c ! n) = None))"

subsection \<open>The reference cache\<close>

text \<open>
  The class \<^verbatim>\<open>simplelrucache\<close> (lines 229-282), the reference cache of the self-test: a
  list of pairs of a key and an object, the least recently used first. Its field
  \<^verbatim>\<open>size\<close> is called \<open>csize\<close> here.
\<close>

record ('k, 'v) simplelrucache =
  cache :: "('k option \<times> 'v option) list"
  csize :: int

definition simple_init :: "int \<Rightarrow> ('k, 'v) simplelrucache" where
  "simple_init sz = \<lparr>cache = [], csize = sz\<rparr>"

text \<open>
  The loops \<^verbatim>\<open>for i in range(len(self.cache))\<close> stop at the first index whose entry
  has the key; \<open>del_at\<close> is \<^verbatim>\<open>del self.cache[i]\<close>.
\<close>

fun find_key :: "'a \<Rightarrow> ('a \<times> 'b) list \<Rightarrow> nat option" where
  "find_key k [] = None"
| "find_key k (x # xs) = (if fst x = k then Some 0 else map_option Suc (find_key k xs))"

definition del_at :: "nat \<Rightarrow> 'a list \<Rightarrow> 'a list" where
  "del_at i xs = take i xs @ drop (Suc i) xs"

definition simple_getitem ::
  "('k, 'v) simplelrucache \<Rightarrow> 'k option \<Rightarrow> error + ('v option \<times> ('k, 'v) simplelrucache)" where
  "simple_getitem s k =
     (case find_key k (cache s) of
        Some i \<Rightarrow>
          (let x = cache s ! i
           in Inr (snd x, s\<lparr>cache := del_at i (cache s) @ [x]\<rparr>))
      | None \<Rightarrow> Inl AssertionError)"

definition simple_setitem ::
  "('k, 'v) simplelrucache \<Rightarrow> 'k option \<Rightarrow> 'v option \<Rightarrow> ('k, 'v) simplelrucache" where
  "simple_setitem s k v =
     (case find_key k (cache s) of
        Some i \<Rightarrow>
          (let x = (fst (cache s ! i), v)
           in s\<lparr>cache := del_at i (cache s) @ [x]\<rparr>)
      | None \<Rightarrow>
          (let c1 = (if int (length (cache s)) = csize s then drop 1 (cache s) else cache s)
           in s\<lparr>cache := c1 @ [(k, v)]\<rparr>))"

definition simple_delitem ::
  "('k, 'v) simplelrucache \<Rightarrow> 'k option \<Rightarrow> ('k, 'v) simplelrucache" where
  "simple_delitem s k =
     (case find_key k (cache s) of
        Some i \<Rightarrow> s\<lparr>cache := del_at i (cache s)\<rparr>
      | None \<Rightarrow> s)"

text \<open>
  The same sequences of operations on the reference cache. A get that fails its
  assertion changes nothing; the class has no \<^verbatim>\<open>clear\<close>, so that call raises and changes
  nothing either.
\<close>

fun simple_step :: "('k, 'v) simplelrucache \<Rightarrow> ('k, 'v) op \<Rightarrow> ('k, 'v) simplelrucache" where
  "simple_step s (Get k) = (case simple_getitem s k of Inl e \<Rightarrow> s | Inr (v, s') \<Rightarrow> s')"
| "simple_step s (Set k v) = simple_setitem s k v"
| "simple_step s (Delete k) = simple_delitem s k"
| "simple_step s Clear = s"

definition simple_run ::
  "('k, 'v) simplelrucache \<Rightarrow> ('k, 'v) op list \<Rightarrow> ('k, 'v) simplelrucache" where
  "simple_run s ops = foldl simple_step s ops"

subsection \<open>The invariant\<close>

text \<open>
  The nodes of the walk that hold a key, the pair a node holds, and the rest of the
  invariant: every node with a key is the table's node for that key, and along the walk
  from the head no node with a key comes after a node without one.
\<close>

definition occ :: "('k, 'v) lrucache \<Rightarrow> nat list" where
  "occ c = filter (\<lambda>n. key (nodes c ! n) \<noteq> None) (ring c)"

definition kv :: "('k, 'v) lrucache \<Rightarrow> nat \<Rightarrow> 'k option \<times> 'v option" where
  "kv c n = (key (nodes c ! n), obj (nodes c ! n))"

definition stale_free :: "('k, 'v) lrucache \<Rightarrow> bool" where
  "stale_free c \<longleftrightarrow>
     (\<forall>n<length (nodes c). key (nodes c ! n) \<noteq> None \<longrightarrow> table c (key (nodes c ! n)) = Some n)"

definition tail_empty :: "('k, 'v) lrucache \<Rightarrow> bool" where
  "tail_empty c \<longleftrightarrow> sorted (map (\<lambda>n. key (nodes c ! n) = None) (ring c))"

definition cache_inv :: "('k, 'v) lrucache \<Rightarrow> bool" where
  "cache_inv c \<longleftrightarrow> cache_wf c \<and> tbl_ok c \<and> stale_free c \<and> tail_empty c"

definition rel :: "('k, 'v) lrucache \<Rightarrow> ('k, 'v) simplelrucache \<Rightarrow> bool" where
  "rel c s \<longleftrightarrow> map (kv c) (occ c) = rev (cache s) \<and> csize s = int (length (nodes c))"

section \<open>Evaluation and simple facts\<close>

lemmas ev = lrucache_init_def run_def setitem_def getitem_def delitem_def mtf_def
  dlnode_init_def set_key_def set_obj_def set_nxt_def set_prev_def clear_def dict_del_def
  len_def contains_def link_node_def Let_def eval_nat_numeral ring_def contents_def

lemma mtf_table: "table (mtf c n) = table c"
  by (simp add: mtf_def Let_def)

lemma mtf_head: "head (mtf c n) = head c"
  by (simp add: mtf_def Let_def)

section \<open>The ring\<close>

subsection \<open>Field reads after field writes\<close>

lemma length_set [simp]:
  "length (set_nxt ns i v) = length ns" "length (set_prev ns i w) = length ns"
  "length (set_key ns i k) = length ns" "length (set_obj ns i u) = length ns"
  by (simp_all add: set_nxt_def set_prev_def set_key_def set_obj_def)

lemma nth_set_nxt [simp]:
  "nxt (set_nxt ns i v ! j) = (if j = i \<and> i < length ns then v else nxt (ns ! j))"
  "prev (set_nxt ns i v ! j) = prev (ns ! j)"
  "key (set_nxt ns i v ! j) = key (ns ! j)"
  "obj (set_nxt ns i v ! j) = obj (ns ! j)"
  by (cases "i < length ns"; simp add: set_nxt_def nth_list_update list_update_beyond)+

lemma nth_set_prev [simp]:
  "nxt (set_prev ns i v ! j) = nxt (ns ! j)"
  "prev (set_prev ns i v ! j) = (if j = i \<and> i < length ns then v else prev (ns ! j))"
  "key (set_prev ns i v ! j) = key (ns ! j)"
  "obj (set_prev ns i v ! j) = obj (ns ! j)"
  by (cases "i < length ns"; simp add: set_prev_def nth_list_update list_update_beyond)+

lemma nth_set_key [simp]:
  "nxt (set_key ns i k ! j) = nxt (ns ! j)"
  "prev (set_key ns i k ! j) = prev (ns ! j)"
  "key (set_key ns i k ! j) = (if j = i \<and> i < length ns then k else key (ns ! j))"
  "obj (set_key ns i k ! j) = obj (ns ! j)"
  by (cases "i < length ns"; simp add: set_key_def nth_list_update list_update_beyond)+

lemma nth_set_obj [simp]:
  "nxt (set_obj ns i u ! j) = nxt (ns ! j)"
  "prev (set_obj ns i u ! j) = prev (ns ! j)"
  "key (set_obj ns i u ! j) = key (ns ! j)"
  "obj (set_obj ns i u ! j) = (if j = i \<and> i < length ns then u else obj (ns ! j))"
  by (cases "i < length ns"; simp add: set_obj_def nth_list_update list_update_beyond)+

lemma nodes_eqI:
  assumes "length ns = length ms"
    and "\<And>j. j < length ms \<Longrightarrow> nxt (ns ! j) = nxt (ms ! j) \<and> prev (ns ! j) = prev (ms ! j)
           \<and> key (ns ! j) = key (ms ! j) \<and> obj (ns ! j) = obj (ms ! j)"
  shows "ns = (ms :: ('k, 'v) dlnode list)"
  using assms by (intro nth_equalityI) (auto intro: dlnode.equality)

subsection \<open>Segments and rings\<close>

lemma seg_Cons: "seg ns (x # xs) = ((xs \<noteq> [] \<longrightarrow> nxt (ns ! x) = hd xs \<and> prev (ns ! hd xs) = x) \<and> seg ns xs)"
  by (cases xs) auto

lemma seg_append:
  "seg ns (xs @ ys) =
     (seg ns xs \<and> seg ns ys \<and>
      (xs \<noteq> [] \<and> ys \<noteq> [] \<longrightarrow> nxt (ns ! last xs) = hd ys \<and> prev (ns ! hd ys) = last xs))"
  by (induction xs rule: seg.induct) (auto simp: seg_Cons)

lemma seg_frame:
  assumes "\<And>a. a \<in> set (butlast xs) \<Longrightarrow> nxt (ms ! a) = nxt (ns ! a)"
    and "\<And>a. a \<in> set (tl xs) \<Longrightarrow> prev (ms ! a) = prev (ns ! a)"
  shows "seg ms xs = seg ns xs"
  using assms by (induction xs rule: seg.induct) auto

lemma walk_seg: "seg ns xs \<Longrightarrow> xs \<noteq> [] \<Longrightarrow> walk ns (hd xs) (length xs) = xs"
  by (induction xs rule: seg.induct) auto

lemma is_ring_length: "is_ring ns r \<Longrightarrow> length r = length ns"
  unfolding is_ring_def by (metis card_lessThan distinct_card)

lemma is_ring_walk: "is_ring ns r \<Longrightarrow> walk ns (hd r) (length ns) = r"
  using is_ring_length [of ns r] walk_seg [of ns r] by (simp add: is_ring_def)

lemma ring_eq: "is_ring (nodes c) r \<Longrightarrow> hd r = head c \<Longrightarrow> ring c = r"
  using is_ring_walk [of "nodes c" r] by (simp add: ring_def)

lemma ring_okI: "is_ring (nodes c) r \<Longrightarrow> hd r = head c \<Longrightarrow> ring_ok c"
  by (simp add: ring_ok_def ring_eq)

lemma is_ring_closed:
  "is_ring ns r \<longleftrightarrow> r \<noteq> [] \<and> distinct r \<and> set r = {..<length ns} \<and> seg ns (r @ [hd r])"
  by (auto simp: is_ring_def seg_append)

lemma seg_rotate: "seg ns ((xs @ [x]) @ [hd (xs @ [x])]) = seg ns ((x # xs) @ [x])"
  by (cases xs) (auto simp: seg_append seg_Cons hd_append)

lemma is_ring_rotate: "is_ring ns (xs @ [x]) = is_ring ns (x # xs)"
proof -
  have "set (xs @ [x]) = set (x # xs)" "distinct (xs @ [x]) = distinct (x # xs)"
    by auto
  then show ?thesis
    unfolding is_ring_closed seg_rotate by simp
qed


lemma is_ring_rotate_append: "is_ring ns (xs @ ys) = is_ring ns (ys @ xs)"
proof (induction xs arbitrary: ys)
  case Nil
  then show ?case by simp
next
  case (Cons x xs)
  have "is_ring ns ((x # xs) @ ys) = is_ring ns (xs @ (ys @ [x]))"
    using is_ring_rotate [of ns "xs @ ys" x] by simp
  also have "\<dots> = is_ring ns ((ys @ [x]) @ xs)"
    by (rule Cons.IH)
  finally show ?case by simp
qed

lemma is_ring_local:
  assumes "is_ring ns r" and "a < length ns"
  shows "nxt (ns ! a) < length ns" and "prev (ns ! a) < length ns"
    and "prev (ns ! nxt (ns ! a)) = a" and "nxt (ns ! prev (ns ! a)) = a"
proof -
  from assms have "a \<in> set r" by (simp add: is_ring_def)
  then obtain xs ys where r: "r = xs @ a # ys" by (auto dest: split_list)
  have ring: "is_ring ns (a # ys @ xs)"
    using assms(1) is_ring_rotate_append [of ns xs "a # ys"] by (simp add: r)
  let ?zs = "ys @ xs"
  from ring have s: "seg ns (a # ?zs @ [a])" and m: "set (a # ?zs) = {..<length ns}"
    by (simp_all add: is_ring_closed)
  have "nxt (ns ! a) = hd (?zs @ [a])" "prev (ns ! hd (?zs @ [a])) = a"
    using s by (simp_all add: seg_Cons)
  moreover have "hd (?zs @ [a]) \<in> set (a # ?zs)"
    by (cases ?zs) auto
  moreover have "prev (ns ! a) = last (a # ?zs)" "nxt (ns ! last (a # ?zs)) = a"
    using ring by (simp_all add: is_ring_def)
  moreover have "last (a # ?zs) \<in> set (a # ?zs)"
    by (rule last_in_set) simp
  ultimately show "nxt (ns ! a) < length ns" and "prev (ns ! a) < length ns"
    and "prev (ns ! nxt (ns ! a)) = a" and "nxt (ns ! prev (ns ! a)) = a"
    unfolding m by auto
qed

lemma mtf_key_obj [simp]:
  "key (nodes (mtf c x) ! j) = key (nodes c ! j)" "obj (nodes (mtf c x) ! j) = obj (nodes c ! j)"
  "length (nodes (mtf c x)) = length (nodes c)"
  by (simp_all add: mtf_def Let_def)

lemma mtf_id_tail:
  assumes "is_ring (nodes c) (A @ [x])" and "hd (A @ [x]) = head c" and "A \<noteq> []"
  shows "mtf c x = c"
proof -
  let ?ns = "nodes c" and ?h = "head c"
  let ?L = "length ?ns"
  define p where "p = last A"
  from assms have h: "?h = hd A" by simp
  from assms(1) have d: "distinct (A @ [x])" and m: "set (A @ [x]) = {..<?L}"
    and s: "seg ?ns (A @ [x])" and cl: "nxt (?ns ! x) = ?h" "prev (?ns ! ?h) = x"
    using assms(2) by (simp_all add: is_ring_def)
  have px: "nxt (?ns ! p) = x" "prev (?ns ! x) = p"
    using s assms(3) by (simp_all add: seg_append p_def)
  have "p \<in> set A" "?h \<in> set A" using assms(3) by (simp_all add: p_def h)
  then have ne: "p \<noteq> x" "?h \<noteq> x" and rg: "p < ?L" "?h < ?L" "x < ?L"
    using d m by auto
  have "nodes (mtf c x) = ?ns"
    by (rule nodes_eqI) (simp_all add: mtf_def Let_def px cl ne ne [symmetric] rg)
  moreover have "table (mtf c x) = table c" "head (mtf c x) = head c"
    by (simp_all add: mtf_def Let_def)
  ultimately show ?thesis by (intro lrucache.equality) simp_all
qed


lemma mtf_id_head:
  assumes "is_ring (nodes c) (x # B)" and "x = head c"
  shows "mtf c x = c"
proof -
  let ?ns = "nodes c"
  let ?L = "length ?ns"
  from assms(1) have d: "distinct (x # B)" and m: "set (x # B) = {..<?L}"
    and s: "seg ?ns (x # B)" and cl: "nxt (?ns ! last (x # B)) = x" "prev (?ns ! x) = last (x # B)"
    by (simp_all add: is_ring_def)
  have "nodes (mtf c x) = ?ns"
  proof (cases B)
    case Nil
    then have "nxt (?ns ! x) = x" "prev (?ns ! x) = x" "x < ?L"
      using cl m by auto
    then show ?thesis
      by (intro nodes_eqI) (simp_all add: mtf_def Let_def assms(2) [symmetric])
  next
    case (Cons b B')
    define p where "p = last B"
    define n where "n = hd B"
    have pn: "nxt (?ns ! x) = n" "prev (?ns ! n) = x" "nxt (?ns ! p) = x" "prev (?ns ! x) = p"
      using s cl Cons by (simp_all add: p_def n_def)
    have "p \<in> set B" "n \<in> set B" using Cons by (simp_all add: p_def n_def)
    then have ne: "p \<noteq> x" "n \<noteq> x" and rg: "p < ?L" "n < ?L" "x < ?L"
      using d m by auto
    show ?thesis
      by (rule nodes_eqI)
        (simp_all add: mtf_def Let_def pn ne ne [symmetric] rg assms(2) [symmetric])
  qed
  moreover have "table (mtf c x) = table c" "head (mtf c x) = head c"
    by (simp_all add: mtf_def Let_def)
  ultimately show ?thesis by (intro lrucache.equality) simp_all
qed

lemma last_notin_butlast: "distinct xs \<Longrightarrow> xs \<noteq> [] \<Longrightarrow> last xs \<notin> set (butlast xs)"
  by (induction xs) (auto dest: in_set_butlastD)

lemma hd_notin_tl: "distinct xs \<Longrightarrow> xs \<noteq> [] \<Longrightarrow> hd xs \<notin> set (tl xs)"
  by (cases xs) auto

lemma mtf_middle:
  assumes "is_ring (nodes c) (A @ x # B)" and "hd A = head c" and "A \<noteq> []" and "B \<noteq> []"
  shows "is_ring (nodes (mtf c x)) (A @ B @ [x])"
    and "nxt (nodes (mtf c x) ! x) = head c"
proof -
  let ?ns = "nodes c" and ?h = "head c" and ?ms = "nodes (mtf c x)"
  let ?L = "length ?ns"
  define p where "p = last A"
  define n where "n = hd B"
  define t where "t = last B"
  from assms have d: "distinct (A @ x # B)" and m: "set (A @ x # B) = {..<?L}"
    and s: "seg ?ns (A @ x # B)" and cl: "nxt (?ns ! t) = ?h" "prev (?ns ! ?h) = t"
    by (simp_all add: is_ring_def t_def)
  have sA: "seg ?ns A" and sB: "seg ?ns B"
    and pn: "nxt (?ns ! p) = x" "prev (?ns ! x) = p" "nxt (?ns ! x) = n" "prev (?ns ! n) = x"
    using s assms(3,4) by (simp_all add: seg_append seg_Cons p_def n_def)
  have mem: "p \<in> set A" "?h \<in> set A" "n \<in> set B" "t \<in> set B"
    using assms(2-4) hd_in_set [of A] by (simp_all add: p_def n_def t_def)
  then have ne: "p \<noteq> x" "n \<noteq> x" "t \<noteq> x" "?h \<noteq> x" "n \<noteq> ?h" "t \<noteq> p" "t \<noteq> ?h" "n \<noteq> p"
    and rg: "p < ?L" "n < ?L" "x < ?L" "t < ?L" "?h < ?L"
    using d m by auto
  have N: "nxt (?ms ! j) = (if j = t then x else if j = x then ?h else if j = p then n
                            else nxt (?ns ! j))"
    and P: "prev (?ms ! j) = (if j = ?h then x else if j = x then t else if j = n then p
                              else prev (?ns ! j))" for j
    by (simp_all add: mtf_def Let_def pn cl ne ne [symmetric] rg)
  show "nxt (?ms ! x) = ?h" using ne by (simp add: N)
  have "seg ?ms A = seg ?ns A"
  proof (rule seg_frame)
    fix a assume "a \<in> set (butlast A)"
    then have "a \<noteq> p" "a \<in> set A"
      using d assms(3) last_notin_butlast [of A] by (auto simp: p_def dest: in_set_butlastD)
    then show "nxt (?ms ! a) = nxt (?ns ! a)" using d mem by (auto simp: N)
  next
    fix a assume "a \<in> set (tl A)"
    then have "a \<noteq> ?h" "a \<in> set A"
      using d assms(2,3) hd_notin_tl [of A] by (auto dest: list.set_sel(2))
    then show "prev (?ms ! a) = prev (?ns ! a)" using d mem by (auto simp: P)
  qed
  moreover have "seg ?ms B = seg ?ns B"
  proof (rule seg_frame)
    fix a assume "a \<in> set (butlast B)"
    then have "a \<noteq> t" "a \<in> set B"
      using d assms(4) last_notin_butlast [of B] by (auto simp: t_def dest: in_set_butlastD)
    then show "nxt (?ms ! a) = nxt (?ns ! a)" using d mem by (auto simp: N)
  next
    fix a assume "a \<in> set (tl B)"
    then have "a \<noteq> n" "a \<in> set B"
      using d assms(4) hd_notin_tl [of B] by (auto simp: n_def dest: list.set_sel(2))
    then show "prev (?ms ! a) = prev (?ns ! a)" using d mem by (auto simp: P)
  qed
  ultimately have "seg ?ms (A @ B @ [x])"
    using sA sB assms(3,4) ne
    by (simp add: seg_append N P p_def [symmetric] n_def [symmetric] t_def [symmetric])
  moreover have "nxt (?ms ! last (A @ B @ [x])) = hd (A @ B @ [x])"
    "prev (?ms ! hd (A @ B @ [x])) = last (A @ B @ [x])"
    using assms(2,3) ne by (simp_all add: N P)
  moreover have "set (A @ B @ [x]) = {..<length ?ms}" "distinct (A @ B @ [x])"
    using m d by auto
  ultimately show "is_ring ?ms (A @ B @ [x])"
    by (simp add: is_ring_def)
qed


lemma ring_ok_hd:
  assumes "ring_ok c"
  shows "ring c \<noteq> []" and "hd (ring c) = head c" and "length (ring c) = length (nodes c)"
    and "set (ring c) = {..<length (nodes c)}" and "distinct (ring c)"
    and "head c < length (nodes c)"
proof -
  from assms have r: "is_ring (nodes c) (ring c)" by (simp add: ring_ok_def)
  then show ne: "ring c \<noteq> []" and s: "set (ring c) = {..<length (nodes c)}" and "distinct (ring c)"
    by (simp_all add: is_ring_def)
  show "length (ring c) = length (nodes c)" using r by (rule is_ring_length)
  then have "length (nodes c) \<noteq> 0" using ne by auto
  then obtain m where "length (nodes c) = Suc m" by (cases "length (nodes c)") auto
  then show h: "hd (ring c) = head c" by (simp add: ring_def)
  show "head c < length (nodes c)" using hd_in_set [OF ne] s h by auto
qed

lemma ring_ok_last:
  assumes "ring_ok c"
  shows "prev (nodes c ! head c) = last (ring c)"
  using assms ring_ok_hd(2) [OF assms] by (simp add: ring_ok_def is_ring_def)

text \<open>What \<^verbatim>\<open>mtf\<close> does to the walk from the head.\<close>

lemma mtf_ring:
  assumes "ring_ok c" and "x < length (nodes c)"
  shows "is_ring (nodes (mtf c x)) (if x = head c then ring c else remove1 x (ring c) @ [x])"
    and "x = head c \<or> nxt (nodes c ! x) = head c \<Longrightarrow> mtf c x = c"
    and "x \<noteq> head c \<Longrightarrow> nxt (nodes (mtf c x) ! x) = head c"
proof -
  let ?r = "ring c"
  note h = ring_ok_hd [OF assms(1)]
  from assms(1) have r: "is_ring (nodes c) ?r" by (simp add: ring_ok_def)
  have xr: "x \<in> set ?r" using assms(2) h(4) by simp
  have "is_ring (nodes (mtf c x)) (if x = head c then ?r else remove1 x ?r @ [x])
    \<and> (x = head c \<or> nxt (nodes c ! x) = head c \<longrightarrow> mtf c x = c)
    \<and> (x \<noteq> head c \<longrightarrow> nxt (nodes (mtf c x) ! x) = head c)"
  proof (cases "x = head c")
    case True
    then obtain B where B: "?r = x # B" using h(1,2) by (cases ?r) auto
    have "is_ring (nodes c) (x # B)" using r B by simp
    then have "mtf c x = c" using True by (rule mtf_id_head)
    then show ?thesis using r True by simp
  next
    case False
    from xr obtain A B where AB: "?r = A @ x # B" "x \<notin> set A"
      by (auto dest: split_list_first)
    have A: "A \<noteq> []" "hd A = head c" using False h(2) AB by (cases A; simp)+
    have rm: "remove1 x ?r = A @ B" using AB by (simp add: remove1_append)
    show ?thesis
    proof (cases "B = []")
      case True
      have "mtf c x = c"
        using r A True by (intro mtf_id_tail [of c A x]) (simp_all add: AB)
      moreover have "nxt (nodes c ! x) = head c"
        using r h(2) True by (simp add: is_ring_def AB)
      ultimately show ?thesis using r False True by (simp add: rm) (simp add: AB)
    next
      case Bne: False
      have m: "is_ring (nodes (mtf c x)) (A @ B @ [x])" "nxt (nodes (mtf c x) ! x) = head c"
        using r A Bne by (intro mtf_middle [of c A x B]; simp add: AB)+
      have "seg (nodes c) (x # B)" using r by (simp add: is_ring_def AB seg_append)
      then have "nxt (nodes c ! x) = hd B" using Bne by (simp add: seg_Cons)
      moreover have "hd B \<noteq> head c"
      proof -
        have "hd B \<in> set B" using Bne by (rule hd_in_set)
        moreover have "head c \<in> set A" using hd_in_set [OF A(1)] A(2) by simp
        moreover have "set A \<inter> set B = {}" using h(5) by (simp add: AB)
        ultimately show ?thesis by auto
      qed
      ultimately show ?thesis using m False by (simp add: rm)
    qed
  qed
  then show "is_ring (nodes (mtf c x)) (if x = head c then ring c else remove1 x (ring c) @ [x])"
    and "x = head c \<or> nxt (nodes c ! x) = head c \<Longrightarrow> mtf c x = c"
    and "x \<noteq> head c \<Longrightarrow> nxt (nodes (mtf c x) ! x) = head c"
    by blast+
qed


lemma is_ring_cong:
  assumes "length ms = length ns"
    and "\<And>j. nxt (ms ! j) = nxt (ns ! j)" and "\<And>j. prev (ms ! j) = prev (ns ! j)"
  shows "is_ring ms r = is_ring ns r"
proof -
  have "seg ms r = seg ns r" by (rule seg_frame) (simp_all add: assms)
  then show ?thesis by (simp add: is_ring_def assms)
qed

lemma is_ring_set_key [simp]: "is_ring (set_key ns i k) r = is_ring ns r"
  by (rule is_ring_cong) simp_all

lemma is_ring_set_obj [simp]: "is_ring (set_obj ns i v) r = is_ring ns r"
  by (rule is_ring_cong) simp_all

lemma is_ring_head: "is_ring ns r \<Longrightarrow> hd r = h \<Longrightarrow> walk ns h (length ns) = r"
  using is_ring_walk [of ns r] by simp

text \<open>\<^verbatim>\<open>mtf\<close> followed by \<^verbatim>\<open>self.head = node\<close>: the node comes to the front.\<close>

lemma promote_ring:
  assumes "ring_ok c" and "x < length (nodes c)"
  shows "is_ring (nodes (mtf c x)) (x # remove1 x (ring c))"
proof (cases "x = head c")
  case True
  have "ring c = x # tl (ring c)"
    using ring_ok_hd(1,2) [OF assms(1)] True by (cases "ring c") auto
  then have "x # remove1 x (ring c) = ring c"
    by (metis remove1.simps(2))
  then show ?thesis using mtf_ring(1) [OF assms] True by simp
next
  case False
  then show ?thesis using mtf_ring(1) [OF assms] by (simp add: is_ring_rotate)
qed

text \<open>\<^verbatim>\<open>mtf\<close> followed by \<^verbatim>\<open>self.head = node.next\<close>: the node goes to the tail.\<close>

lemma demote_ring:
  assumes "ring_ok c" and "x < length (nodes c)"
  shows "is_ring (nodes (mtf c x)) (remove1 x (ring c) @ [x])"
    and "hd (remove1 x (ring c) @ [x]) = nxt (nodes (mtf c x) ! x)"
proof -
  note h = ring_ok_hd [OF assms(1)]
  have "is_ring (nodes (mtf c x)) (remove1 x (ring c) @ [x])
      \<and> hd (remove1 x (ring c) @ [x]) = nxt (nodes (mtf c x) ! x)"
  proof (cases "x = head c")
    case True
    then obtain B where B: "ring c = x # B" using h(1,2) by (cases "ring c") auto
    have id: "mtf c x = c" using mtf_ring(2) [OF assms] True by simp
    have r: "is_ring (nodes c) (x # B)" using assms(1) by (simp add: ring_ok_def B)
    then have "seg (nodes c) ((x # B) @ [x])" by (simp add: is_ring_closed)
    then have "nxt (nodes c ! x) = hd (B @ [x])" by (simp add: seg_Cons)
    then show ?thesis using r by (simp add: id B is_ring_rotate)
  next
    case False
    have "x \<in> set (ring c)" using assms(2) h(4) by simp
    then have "remove1 x (ring c) \<noteq> []"
      using False h(1,2) by (cases "ring c") auto
    moreover have "hd (remove1 x (ring c)) = head c"
      using False h(1,2) by (cases "ring c") auto
    ultimately show ?thesis
      using mtf_ring(1,3) [OF assms] False by simp
  qed
  then show "is_ring (nodes (mtf c x)) (remove1 x (ring c) @ [x])"
    and "hd (remove1 x (ring c) @ [x]) = nxt (nodes (mtf c x) ! x)" by simp_all
qed

text \<open>\<^verbatim>\<open>self.head = self.head.prev\<close>: the tail becomes the head.\<close>

lemma tail_ring:
  assumes "ring_ok c"
  shows "is_ring (nodes c) (last (ring c) # butlast (ring c))"
proof -
  have "is_ring (nodes c) (butlast (ring c) @ [last (ring c)])"
    using assms ring_ok_hd(1) [OF assms] by (simp add: ring_ok_def)
  then show ?thesis by (simp add: is_ring_rotate)
qed

subsection \<open>The constructor\<close>

lemma link_node_fields:
  assumes "head c < length (nodes c)" and "j \<le> length (nodes c)"
  shows "nxt (nodes (link_node c) ! j) =
          (if j = head c then length (nodes c)
           else if j = length (nodes c) then nxt (nodes c ! head c)
           else nxt (nodes c ! j))"
    and "nxt (nodes c ! head c) < length (nodes c) \<Longrightarrow> prev (nodes (link_node c) ! j) =
          (if j = nxt (nodes c ! head c) then length (nodes c)
           else if j = length (nodes c) then head c
           else prev (nodes c ! j))"
    and "key (nodes (link_node c) ! j) = (if j = length (nodes c) then None else key (nodes c ! j))"
    and "obj (nodes (link_node c) ! j) = (if j = length (nodes c) then None else obj (nodes c ! j))"
  using assms by (simp_all add: link_node_def Let_def nth_append dlnode_init_def)

lemma link_node_simps [simp]:
  "length (nodes (link_node c)) = Suc (length (nodes c))"
  "head (link_node c) = head c" "table (link_node c) = table c"
  by (simp_all add: link_node_def Let_def)

lemma link_node_ring:
  assumes "is_ring (nodes c) (head c # rest)"
  shows "is_ring (nodes (link_node c)) (head c # length (nodes c) # rest)"
proof -
  let ?ns = "nodes c" and ?h = "head c" and ?ms = "nodes (link_node c)"
  let ?L = "length ?ns"
  from assms have d: "distinct (?h # rest)" and m: "set (?h # rest) = {..<?L}"
    and s: "seg ?ns (?h # rest)" and cl: "nxt (?ns ! last (?h # rest)) = ?h"
      "prev (?ns ! ?h) = last (?h # rest)"
    by (simp_all add: is_ring_def)
  have lt: "a < ?L" if "a \<in> set (?h # rest)" for a using that unfolding m by simp
  have h: "?h < ?L" by (rule lt) simp
  have n: "nxt (?ns ! ?h) < ?L" using is_ring_local(1) [OF assms h] .
  have N: "nxt (?ms ! j) = (if j = ?h then ?L else if j = ?L then nxt (?ns ! ?h) else nxt (?ns ! j))"
    and P: "prev (?ms ! j) = (if j = nxt (?ns ! ?h) then ?L else if j = ?L then ?h
                              else prev (?ns ! j))"
    if "j \<le> ?L" for j
    using link_node_fields(1,2) [OF h that] n by simp_all
  have L: "?L \<notin> set (?h # rest)" unfolding m by simp
  have le: "a \<le> ?L" if "a \<in> set (?h # rest)" for a using lt [OF that] by simp
  have "set (?h # ?L # rest) = insert ?L (set (?h # rest))" by auto
  also have "\<dots> = {..<length ?ms}" unfolding m by (simp add: lessThan_Suc)
  finally have dm: "distinct (?h # ?L # rest)" "set (?h # ?L # rest) = {..<length ?ms}"
    using d L by simp_all
  show ?thesis
  proof (cases "rest = []")
    case True
    then have "nxt (?ns ! ?h) = ?h" using cl by simp
    then show ?thesis using dm h by (simp add: is_ring_def True N P)
  next
    case False
    define b where "b = hd rest"
    define t where "t = last rest"
    have mem: "b \<in> set rest" "t \<in> set rest" using False by (simp_all add: b_def t_def)
    have b: "nxt (?ns ! ?h) = b" "prev (?ns ! b) = ?h" and sr: "seg ?ns rest"
      using s False by (simp_all add: seg_Cons b_def)
    have t: "nxt (?ns ! t) = ?h" "prev (?ns ! ?h) = t"
      using cl False by (simp_all add: t_def)
    have ne: "b \<noteq> ?h" "b \<noteq> ?L" "t \<noteq> ?h" "t \<noteq> ?L" "?h \<noteq> ?L"
      using mem d L by auto
    have rg: "b \<le> ?L" "t \<le> ?L" "?h \<le> ?L" "?L \<le> ?L"
      using mem le [of b] le [of t] le [of ?h] by simp_all
    have "seg ?ms rest = seg ?ns rest"
    proof (rule seg_frame)
      fix a assume "a \<in> set (butlast rest)"
      then have "a \<in> set rest" by (rule in_set_butlastD)
      then have "a \<noteq> ?h" "a \<noteq> ?L" "a \<le> ?L" using d L le [of a] by auto
      then show "nxt (?ms ! a) = nxt (?ns ! a)" by (simp add: N)
    next
      fix a assume a: "a \<in> set (tl rest)"
      then have "a \<in> set rest" using False by (auto dest: list.set_sel(2))
      moreover have "a \<noteq> b" using a hd_notin_tl [of rest] d False by (auto simp: b_def)
      ultimately have "a \<noteq> b" "a \<noteq> ?L" "a \<le> ?L" using L le [of a] by auto
      then show "prev (?ms ! a) = prev (?ns ! a)" by (simp add: P b)
    qed
    then have "seg ?ms rest" using sr by simp
    moreover have "nxt (?ms ! ?h) = ?L" "prev (?ms ! ?L) = ?h" "nxt (?ms ! ?L) = b"
      "prev (?ms ! b) = ?L" "nxt (?ms ! t) = ?h" "prev (?ms ! ?h) = t"
      using ne rg b t by (simp_all add: N P)
    ultimately have "seg ?ms (?h # ?L # rest)" "nxt (?ms ! last rest) = ?h"
      "prev (?ms ! ?h) = last rest"
      using False by (simp_all add: seg_Cons b_def t_def)
    then show ?thesis
      using dm False by (simp add: is_ring_def)
  qed
qed


lemma link_node_all_empty:
  assumes "head c < length (nodes c)" and "all_empty c"
  shows "all_empty (link_node c)"
  unfolding all_empty_def
proof (intro allI impI)
  fix j assume "j < length (nodes (link_node c))"
  then have j: "j \<le> length (nodes c)" by simp
  show "key (nodes (link_node c) ! j) = None \<and> obj (nodes (link_node c) ! j) = None"
    using assms(2) j by (auto simp: link_node_fields(3,4) [OF assms(1) j] all_empty_def)
qed

lemma init_loop_ok:
  assumes "is_ring (nodes c) (head c # rest)" and "all_empty c"
  shows "(\<exists>rest'. is_ring (nodes (init_loop m c)) (head c # rest'))
       \<and> head (init_loop m c) = head c \<and> table (init_loop m c) = table c
       \<and> length (nodes (init_loop m c)) = length (nodes c) + m \<and> all_empty (init_loop m c)"
  using assms
proof (induction m arbitrary: c rest)
  case 0
  then show ?case by auto
next
  case (Suc m)
  have h: "head c < length (nodes c)"
    using Suc.prems(1) by (auto simp: is_ring_def)
  have "is_ring (nodes (link_node c)) (head (link_node c) # length (nodes c) # rest)"
    using link_node_ring [OF Suc.prems(1)] by simp
  moreover have "all_empty (link_node c)"
    using h Suc.prems(2) by (rule link_node_all_empty)
  ultimately show ?case
    using Suc.IH [of "link_node c" "length (nodes c) # rest"] by simp
qed

lemma lrucache_init_ok:
  assumes "lrucache_init sz = Inr c"
  shows "ring_ok c" and "table c = Map.empty" and "length (nodes c) = nat sz" and "0 < sz"
    and "all_empty c"
proof -
  let ?c0 = "\<lparr>table = Map.empty, head = 0, nodes = [dlnode_init 0]\<rparr> :: ('a, 'b) lrucache"
  from assms show sz: "0 < sz" by (simp add: lrucache_init_def split: if_splits)
  with assms have c: "c = init_loop (nat (sz - 1)) ?c0" by (simp add: lrucache_init_def)
  have "is_ring (nodes ?c0) (head ?c0 # [])" "all_empty ?c0"
    by (simp_all add: is_ring_def dlnode_init_def all_empty_def lessThan_Suc)
  from init_loop_ok [OF this, of "nat (sz - 1)"]
  obtain rest where "is_ring (nodes c) (head c # rest)" and "table c = Map.empty"
    and "length (nodes c) = 1 + nat (sz - 1)" and "all_empty c"
    unfolding c by auto
  then show "ring_ok c" and "table c = Map.empty" and "length (nodes c) = nat sz" and "all_empty c"
    using sz by (auto intro: ring_okI)
qed

subsection \<open>The links after each operation\<close>

lemma walk_cong: "(\<And>j. nxt (ms ! j) = nxt (ns ! j)) \<Longrightarrow> walk ms n m = walk ns n m"
  by (induction m arbitrary: n) simp_all

lemma ring_fields_cong:
  assumes "length (nodes d) = length (nodes c)" and "head d = head c"
    and "\<And>j. nxt (nodes d ! j) = nxt (nodes c ! j)"
    and "\<And>j. prev (nodes d ! j) = prev (nodes c ! j)"
  shows "ring d = ring c" and "ring_ok d = ring_ok c"
proof -
  show r: "ring d = ring c"
    using assms(1,2) walk_cong [of "nodes d" "nodes c", OF assms(3)] by (simp add: ring_def)
  show "ring_ok d = ring_ok c"
    unfolding ring_ok_def r using assms(1,3,4) by (rule is_ring_cong)
qed

text \<open>The two ways in which the operations use \<^verbatim>\<open>mtf\<close>.\<close>

lemma promote:
  assumes "ring_ok c" and "x < length (nodes c)"
  shows "ring ((mtf c x)\<lparr>head := x\<rparr>) = x # remove1 x (ring c)"
    and "ring_ok ((mtf c x)\<lparr>head := x\<rparr>)"
proof -
  have r: "is_ring (nodes ((mtf c x)\<lparr>head := x\<rparr>)) (x # remove1 x (ring c))"
    using promote_ring [OF assms] by simp
  then show "ring ((mtf c x)\<lparr>head := x\<rparr>) = x # remove1 x (ring c)"
    by (rule ring_eq) simp
  with r show "ring_ok ((mtf c x)\<lparr>head := x\<rparr>)" by (simp add: ring_ok_def)
qed

lemma demote:
  assumes "ring_ok c" and "x < length (nodes c)"
  shows "ring ((mtf c x)\<lparr>head := nxt (nodes (mtf c x) ! x)\<rparr>) = remove1 x (ring c) @ [x]"
    and "ring_ok ((mtf c x)\<lparr>head := nxt (nodes (mtf c x) ! x)\<rparr>)"
proof -
  let ?d = "(mtf c x)\<lparr>head := nxt (nodes (mtf c x) ! x)\<rparr>"
  have r: "is_ring (nodes ?d) (remove1 x (ring c) @ [x])"
    using demote_ring(1) [OF assms] by simp
  then show "ring ?d = remove1 x (ring c) @ [x]"
    by (rule ring_eq) (simp add: demote_ring(2) [OF assms])
  with r show "ring_ok ?d" by (simp add: ring_ok_def)
qed

lemma to_tail:
  assumes "ring_ok c" and "length (nodes d) = length (nodes c)"
    and "head d = prev (nodes c ! head c)"
    and "\<And>j. nxt (nodes d ! j) = nxt (nodes c ! j)"
    and "\<And>j. prev (nodes d ! j) = prev (nodes c ! j)"
  shows "ring d = last (ring c) # butlast (ring c)" and "ring_ok d"
proof -
  have "is_ring (nodes d) (last (ring c) # butlast (ring c))"
    using tail_ring [OF assms(1)] is_ring_cong [of "nodes d" "nodes c", OF assms(2,4,5)] by simp
  moreover have "hd (last (ring c) # butlast (ring c)) = head d"
    using ring_ok_last [OF assms(1)] assms(3) by simp
  ultimately show "ring d = last (ring c) # butlast (ring c)" and "ring_ok d"
    by (auto intro: ring_okI ring_eq)
qed

subsection \<open>The operations, one path at a time\<close>

lemma getitem_hit:
  assumes "table c k = Some x"
  shows "getitem c k = Inr (obj (nodes c ! x), (mtf c x)\<lparr>head := x\<rparr>)"
  using assms by (simp add: getitem_def Let_def)

lemma setitem_hit:
  assumes "table c k = Some x"
  shows "setitem c k v = Inr ((mtf (c\<lparr>nodes := set_obj (nodes c) x v\<rparr>) x)\<lparr>head := x\<rparr>)"
  using assms by (simp add: setitem_def Let_def)

lemma delitem_hit:
  assumes "table c k = Some x"
  shows "delitem c k =
    Inr ((mtf \<lparr>table = (table c)(k := None), head = head c,
                nodes = set_obj (set_key (nodes c) x None) x None\<rparr> x)
          \<lparr>head := nxt (nodes (mtf \<lparr>table = (table c)(k := None), head = head c,
                nodes = set_obj (set_key (nodes c) x None) x None\<rparr> x) ! x)\<rparr>)"
  using assms by (simp add: delitem_def Let_def dict_del_def)

lemma setitem_miss:
  assumes "table c k = None"
  shows "setitem c k v =
    (let x = prev (nodes c ! head c); old = key (nodes c ! x) in
     if old \<noteq> None \<and> table c old = None then Inl KeyError
     else Inr \<lparr>table = (if old \<noteq> None then (table c)(old := None) else table c)
                         (key (set_obj (set_key (nodes c) x k) x v ! x) \<mapsto> x),
               head = x, nodes = set_obj (set_key (nodes c) x k) x v\<rparr>)"
  using assms by (auto simp: setitem_def Let_def dict_del_def split: option.splits)

lemma ring_ok_tail: "ring_ok c \<Longrightarrow> prev (nodes c ! head c) < length (nodes c)"
  using is_ring_local(2) [of "nodes c" "ring c" "head c"] ring_ok_hd(6) [of c]
  by (simp add: ring_ok_def)

lemma ring_ok_set_obj: "ring_ok (c\<lparr>nodes := set_obj (nodes c) x v\<rparr>) = ring_ok c"
  and ring_set_obj: "ring (c\<lparr>nodes := set_obj (nodes c) x v\<rparr>) = ring c"
  by (rule ring_fields_cong; simp)+

lemma wf_getitem: "cache_wf c \<Longrightarrow> getitem c k = Inr (v, c') \<Longrightarrow> cache_wf c'"
  by (auto simp: getitem_def Let_def cache_wf_def refs_ok_def mtf_table promote(2) split: option.splits)

lemma wf_setitem:
  assumes "cache_wf c" and "setitem c k v = Inr c'"
  shows "cache_wf c'"
proof (cases "table c k")
  case None
  let ?x = "prev (nodes c ! head c)"
  have x: "?x < length (nodes c)" using assms(1) by (simp add: cache_wf_def ring_ok_tail)
  have "ring_ok c'"
    using assms None by (intro to_tail(2) [of c c']) (auto simp: setitem_miss Let_def cache_wf_def split: if_splits)
  moreover have "refs_ok c'"
    using assms None x by (auto simp: setitem_miss Let_def cache_wf_def refs_ok_def split: if_splits)
  ultimately show ?thesis by (simp add: cache_wf_def)
next
  case (Some x)
  then have "x < length (nodes c)" using assms(1) by (simp add: cache_wf_def refs_ok_def)
  then have "ring_ok c'"
    using assms Some promote(2) [of "c\<lparr>nodes := set_obj (nodes c) x v\<rparr>" x]
    by (simp add: setitem_hit cache_wf_def ring_ok_set_obj)
  moreover have "refs_ok c'"
    using assms Some by (auto simp: setitem_hit cache_wf_def refs_ok_def mtf_table)
  ultimately show ?thesis by (simp add: cache_wf_def)
qed

lemma wf_delitem:
  assumes "cache_wf c" and "delitem c k = Inr c'"
  shows "cache_wf c'"
proof (cases "table c k")
  case None
  then show ?thesis using assms by (simp add: delitem_def)
next
  case (Some x)
  let ?d = "\<lparr>table = (table c)(k := None), head = head c,
             nodes = set_obj (set_key (nodes c) x None) x None\<rparr>"
  have x: "x < length (nodes ?d)" using assms(1) Some by (simp add: cache_wf_def refs_ok_def)
  have "ring_ok ?d = ring_ok c" by (rule ring_fields_cong) simp_all
  then have "ring_ok ?d" using assms(1) by (simp add: cache_wf_def)
  from demote(2) [OF this x] have "ring_ok c'"
    using assms(2) Some by (simp add: delitem_hit)
  moreover have "refs_ok c'"
    using assms Some by (auto simp: delitem_hit cache_wf_def refs_ok_def mtf_table split: if_splits)
  ultimately show ?thesis by (simp add: cache_wf_def)
qed

lemma wf_clear: "cache_wf c \<Longrightarrow> cache_wf (clear c)"
proof -
  have "ring_ok (clear c) = ring_ok c" by (rule ring_fields_cong) (simp_all add: clear_def)
  then show "cache_wf c \<Longrightarrow> cache_wf (clear c)" by (simp add: cache_wf_def refs_ok_def clear_def)
qed

lemma wf_step: "cache_wf c \<Longrightarrow> cache_wf (step c op)"
  by (cases op) (auto simp: wf_clear split: sum.splits dest: wf_getitem wf_setitem wf_delitem)

lemma run_snoc: "run c (ops @ [op]) = step (run c ops) op"
  by (simp add: run_def)

lemma wf_run: "cache_wf c \<Longrightarrow> cache_wf (run c ops)"
  by (induction ops rule: rev_induct) (simp_all add: run_snoc wf_step, simp add: run_def)

lemma wf_init: "lrucache_init sz = Inr c \<Longrightarrow> cache_wf c"
  using lrucache_init_ok(1,2) [of sz c] by (simp add: cache_wf_def refs_ok_def)


lemma tbl_okD: "tbl_ok c \<Longrightarrow> table c k = Some n \<Longrightarrow> key (nodes c ! n) = k \<and> k \<noteq> None"
  by (simp add: tbl_ok_def)

lemma tbl_ok_setitem:
  assumes "cache_wf c" and "tbl_ok c" and "k \<noteq> None" and "setitem c k v = Inr c'"
  shows "tbl_ok c'"
proof (cases "table c k")
  case None
  let ?x = "prev (nodes c ! head c)"
  let ?old = "key (nodes c ! ?x)"
  have x: "?x < length (nodes c)"
    using assms(1) by (simp add: cache_wf_def ring_ok_tail)
  have c': "table c' = (if ?old \<noteq> None then (table c)(?old := None) else table c)(k \<mapsto> ?x)"
    "\<And>j. key (nodes c' ! j) = (if j = ?x then k else key (nodes c ! j))"
    using assms(4) None x by (auto simp: setitem_miss Let_def split: if_splits)
  show ?thesis
    unfolding tbl_ok_def
  proof (intro allI impI)
    fix k' n assume a: "table c' k' = Some n"
    show "key (nodes c' ! n) = k' \<and> k' \<noteq> None"
    proof (cases "k' = k")
      case True
      then show ?thesis using a assms(3) by (simp add: c')
    next
      case False
      then have t: "table c k' = Some n" and o: "?old \<noteq> None \<longrightarrow> k' \<noteq> ?old"
        using a by (auto simp: c' split: if_splits)
      note d = tbl_okD [OF assms(2) t]
      have "n \<noteq> ?x" using d o by auto
      then show ?thesis using d by (simp add: c')
    qed
  qed
next
  case (Some x)
  then show ?thesis
    using assms(2,4) by (auto simp: setitem_hit tbl_ok_def mtf_table)
qed

lemma tbl_ok_delitem:
  assumes "cache_wf c" and "tbl_ok c" and "delitem c k = Inr c'"
  shows "tbl_ok c'"
proof (cases "table c k")
  case None
  then show ?thesis using assms by (simp add: delitem_def)
next
  case (Some x)
  then have x: "x < length (nodes c)" using assms(1) by (simp add: cache_wf_def refs_ok_def)
  have c': "table c' = (table c)(k := None)"
    "\<And>j. key (nodes c' ! j) = (if j = x then None else key (nodes c ! j))"
    using assms(3) Some x by (auto simp: delitem_hit mtf_table)
  show ?thesis
    unfolding tbl_ok_def
  proof (intro allI impI)
    fix k' n assume a: "table c' k' = Some n"
    then have t: "table c k' = Some n" and ne: "k' \<noteq> k"
      by (auto simp: c' split: if_splits)
    note d = tbl_okD [OF assms(2) t] and e = tbl_okD [OF assms(2) Some]
    have "n \<noteq> x" using d e ne by auto
    then show "key (nodes c' ! n) = k' \<and> k' \<noteq> None" using d by (simp add: c')
  qed
qed

lemma tbl_ok_step:
  assumes "cache_wf c" and "tbl_ok c" and "proper_key op"
  shows "tbl_ok (step c op)"
proof (cases op)
  case (Get k)
  then show ?thesis
    using assms(2) by (auto simp: getitem_def Let_def tbl_ok_def mtf_table split: option.splits)
next
  case (Set k v)
  then show ?thesis
    using assms tbl_ok_setitem [OF assms(1,2), of k v] by (auto split: sum.splits)
next
  case (Delete k)
  then show ?thesis
    using assms tbl_ok_delitem [OF assms(1,2), of k] by (auto split: sum.splits)
next
  case Clear
  then show ?thesis by (simp add: clear_def tbl_ok_def)
qed

lemma tbl_ok_run:
  assumes "cache_wf c" and "tbl_ok c" and "\<forall>op\<in>set ops. proper_key op"
  shows "tbl_ok (run c ops)"
  using assms(3)
proof (induction ops rule: rev_induct)
  case Nil
  then show ?case using assms(2) by (simp add: run_def)
next
  case (snoc op ops)
  then show ?case
    using tbl_ok_step [OF wf_run [OF assms(1), of ops], of op] by (simp add: run_snoc)
qed

lemma tbl_ok_init: "lrucache_init sz = Inr c \<Longrightarrow> tbl_ok c"
  using lrucache_init_ok(2) [of sz c] by (simp add: tbl_ok_def)

lemma len_le:
  assumes "cache_wf c" and "tbl_ok c"
  shows "len c \<le> length (nodes c)"
proof -
  let ?f = "\<lambda>k. the (table c k)"
  have "inj_on ?f (dom (table c))"
  proof (rule inj_onI)
    fix k k' assume "k \<in> dom (table c)" "k' \<in> dom (table c)" "?f k = ?f k'"
    then obtain n where "table c k = Some n" "table c k' = Some n" by auto
    then show "k = k'" using assms(2) by (auto simp: tbl_ok_def)
  qed
  moreover have "?f ` dom (table c) \<subseteq> {..<length (nodes c)}"
    using assms(1) by (auto simp: cache_wf_def refs_ok_def)
  ultimately have "card (dom (table c)) \<le> card {..<length (nodes c)}"
    by (intro card_inj_on_le) simp_all
  then show ?thesis by (simp add: len_def)
qed

lemma run_nodes_length: "cache_wf c \<Longrightarrow> length (nodes (run c ops)) = length (nodes c)"
proof (induction ops rule: rev_induct)
  case Nil
  then show ?case by (simp add: run_def)
next
  case (snoc op ops)
  let ?c = "run c ops"
  have "prev (nodes ?c ! head ?c) < length (nodes ?c)"
    using wf_run [OF snoc.prems, of ops] by (simp add: cache_wf_def ring_ok_tail)
  then have "length (nodes (step ?c op)) = length (nodes ?c)"
    by (cases op)
      (auto simp: getitem_def setitem_def delitem_def Let_def dict_del_def clear_def
         split: option.splits sum.splits if_splits)
  then show ?case using snoc by (simp add: run_snoc)
qed




subsection \<open>Facts about lists\<close>

lemma walk_take: "take m (walk ns n l) = walk ns n (min m l)"
proof (induction l arbitrary: n m)
  case 0
  then show ?case by simp
next
  case (Suc l)
  then show ?case by (cases m) simp_all
qed

lemma sorted_bool_split:
  "sorted (map f xs) \<Longrightarrow> xs = filter (\<lambda>x. \<not> f x) xs @ filter f xs"
proof (induction xs)
  case Nil
  then show ?case by simp
next
  case (Cons x xs)
  show ?case
  proof (cases "f x")
    case True
    then have "\<forall>y\<in>set xs. f y" using Cons.prems by auto
    then have "filter (\<lambda>x. \<not> f x) xs = []" "filter f xs = xs" by (simp_all add: filter_empty_conv)
    then show ?thesis using True by simp
  next
    case False
    then show ?thesis using Cons by simp
  qed
qed

lemma map_remove1_filter:
  assumes "distinct (map f xs)" and "x \<in> set xs" and "\<And>y. fst (g y) = f y"
  shows "map g (remove1 x xs) = filter (\<lambda>p. fst p \<noteq> f x) (map g xs)"
  using assms(1,2)
proof (induction xs)
  case Nil
  then show ?case by simp
next
  case (Cons y ys)
  show ?case
  proof (cases "x = y")
    case True
    have "f y \<notin> f ` set ys" using Cons.prems(1) by simp
    then have "\<forall>z\<in>set ys. f z \<noteq> f y" by (metis imageI)
    then have "filter (\<lambda>p. fst p \<noteq> f y) (map g ys) = map g ys"
      by (auto simp: filter_id_conv assms(3))
    then show ?thesis using True by (simp add: assms(3))
  next
    case False
    then have "f y \<noteq> f x" using Cons.prems by auto
    then show ?thesis using False Cons by (simp add: assms(3))
  qed
qed

lemma find_key_None: "find_key k xs = None \<longleftrightarrow> k \<notin> fst ` set xs"
  by (induction xs) auto

lemma find_key_Some:
  assumes "find_key k xs = Some i" and "distinct (map fst xs)"
  shows "i < length xs" and "fst (xs ! i) = k"
    and "del_at i xs = filter (\<lambda>p. fst p \<noteq> k) xs"
proof -
  have "i < length xs \<and> fst (xs ! i) = k \<and> del_at i xs = filter (\<lambda>p. fst p \<noteq> k) xs"
    using assms
  proof (induction xs arbitrary: i)
    case Nil
    then show ?case by simp
  next
    case (Cons x xs)
    show ?case
    proof (cases "fst x = k")
      case True
      then have "k \<notin> fst ` set xs" using Cons.prems(2) by simp
      then have "\<forall>p\<in>set xs. fst p \<noteq> k" by (metis imageI)
      then have "filter (\<lambda>p. fst p \<noteq> k) xs = xs" by (simp add: filter_id_conv)
      then show ?thesis using True Cons.prems(1) by (simp add: del_at_def)
    next
      case False
      then obtain j where j: "find_key k xs = Some j" "i = Suc j"
        using Cons.prems(1) by auto
      then show ?thesis using Cons.IH [of j] Cons.prems(2) False by (simp add: del_at_def)
    qed
  qed
  then show "i < length xs" and "fst (xs ! i) = k"
    and "del_at i xs = filter (\<lambda>p. fst p \<noteq> k) xs" by simp_all
qed

lemma filter_butlast_last:
  "xs \<noteq> [] \<Longrightarrow> filter P xs = filter P (butlast xs) @ (if P (last xs) then [last xs] else [])"
  using append_butlast_last_id [of xs] filter_append [of P "butlast xs" "[last xs]"] by simp


subsection \<open>What each operation does to the walk, the table and the nodes\<close>

lemma get_effect:
  assumes "cache_wf c" and "table c k = Some x"
  defines "c' \<equiv> step c (Get k)"
  shows "ring c' = x # remove1 x (ring c)" and "table c' = table c"
    and "length (nodes c') = length (nodes c)"
    and "\<And>j. key (nodes c' ! j) = key (nodes c ! j)"
    and "\<And>j. obj (nodes c' ! j) = obj (nodes c ! j)"
proof -
  have x: "x < length (nodes c)" and r: "ring_ok c"
    using assms(1,2) by (auto simp: cache_wf_def refs_ok_def)
  have c': "c' = (mtf c x)\<lparr>head := x\<rparr>"
    using assms(2) by (simp add: c'_def getitem_hit)
  show "ring c' = x # remove1 x (ring c)" unfolding c' by (rule promote(1) [OF r x])
  show "table c' = table c" "length (nodes c') = length (nodes c)"
    "\<And>j. key (nodes c' ! j) = key (nodes c ! j)" "\<And>j. obj (nodes c' ! j) = obj (nodes c ! j)"
    by (simp_all add: c' mtf_table)
qed

lemma set_hit_effect:
  fixes c :: "('k, 'v) lrucache" and v :: "'v option"
  assumes "cache_wf c" and "table c k = Some x"
  defines "c' \<equiv> step c (Set k v)"
  shows "ring c' = x # remove1 x (ring c)" and "table c' = table c"
    and "length (nodes c') = length (nodes c)"
    and "\<And>j. key (nodes c' ! j) = key (nodes c ! j)"
    and "\<And>j. obj (nodes c' ! j) = (if j = x then v else obj (nodes c ! j))"
proof -
  let ?d = "c\<lparr>nodes := set_obj (nodes c) x v\<rparr>"
  have x: "x < length (nodes ?d)" and r: "ring_ok ?d"
    using assms(1,2) by (auto simp: cache_wf_def refs_ok_def ring_ok_set_obj)
  have c': "c' = (mtf ?d x)\<lparr>head := x\<rparr>"
    using assms(2) by (simp add: c'_def setitem_hit)
  show "ring c' = x # remove1 x (ring c)"
    unfolding c' using promote(1) [OF r x] by (simp add: ring_set_obj)
  show "table c' = table c" "length (nodes c') = length (nodes c)"
    "\<And>j. key (nodes c' ! j) = key (nodes c ! j)"
    "\<And>j. obj (nodes c' ! j) = (if j = x then v else obj (nodes c ! j))"
    using x by (simp_all add: c' mtf_table)
qed

lemma set_miss_effect:
  fixes c :: "('k, 'v) lrucache" and v :: "'v option"
  assumes "cache_wf c" and "table c k = None"
    and "key (nodes c ! last (ring c)) \<noteq> None
         \<longrightarrow> table c (key (nodes c ! last (ring c))) \<noteq> None"
  defines "c' \<equiv> step c (Set k v)" and "x \<equiv> last (ring c)"
  shows "ring c' = x # butlast (ring c)"
    and "table c' = (if key (nodes c ! x) \<noteq> None then (table c)(key (nodes c ! x) := None)
                     else table c)(k \<mapsto> x)"
    and "length (nodes c') = length (nodes c)"
    and "\<And>j. key (nodes c' ! j) = (if j = x then k else key (nodes c ! j))"
    and "\<And>j. obj (nodes c' ! j) = (if j = x then v else obj (nodes c ! j))"
    and "x < length (nodes c)"
proof -
  have r: "ring_ok c" using assms(1) by (simp add: cache_wf_def)
  have px: "prev (nodes c ! head c) = x" by (simp add: x_def ring_ok_last [OF r])
  show x: "x < length (nodes c)" using ring_ok_tail [OF r] by (simp add: px)
  have c': "c' = \<lparr>table = (if key (nodes c ! x) \<noteq> None
                             then (table c)(key (nodes c ! x) := None) else table c)(k \<mapsto> x),
                   head = x, nodes = set_obj (set_key (nodes c) x k) x v\<rparr>"
    using assms(2,3) x by (auto simp: c'_def setitem_miss Let_def px x_def [symmetric])
  show "ring c' = x # butlast (ring c)"
    unfolding x_def by (rule to_tail(1) [OF r]) (simp_all add: c' px)
  show "table c' = (if key (nodes c ! x) \<noteq> None then (table c)(key (nodes c ! x) := None)
                     else table c)(k \<mapsto> x)"
    "length (nodes c') = length (nodes c)"
    "\<And>j. key (nodes c' ! j) = (if j = x then k else key (nodes c ! j))"
    "\<And>j. obj (nodes c' ! j) = (if j = x then v else obj (nodes c ! j))"
    using x by (simp_all add: c')
qed

lemma delete_effect:
  assumes "cache_wf c" and "table c k = Some x"
  defines "c' \<equiv> step c (Delete k)"
  shows "ring c' = remove1 x (ring c) @ [x]" and "table c' = (table c)(k := None)"
    and "length (nodes c') = length (nodes c)"
    and "\<And>j. key (nodes c' ! j) = (if j = x then None else key (nodes c ! j))"
    and "\<And>j. obj (nodes c' ! j) = (if j = x then None else obj (nodes c ! j))"
proof -
  let ?d = "\<lparr>table = (table c)(k := None), head = head c,
             nodes = set_obj (set_key (nodes c) x None) x None\<rparr>"
  have x: "x < length (nodes ?d)" using assms(1,2) by (simp add: cache_wf_def refs_ok_def)
  have rd: "ring ?d = ring c" "ring_ok ?d = ring_ok c"
    by (rule ring_fields_cong; simp)+
  then have r: "ring_ok ?d" using assms(1) by (simp add: cache_wf_def)
  have c': "c' = (mtf ?d x)\<lparr>head := nxt (nodes (mtf ?d x) ! x)\<rparr>"
    using assms(2) by (simp add: c'_def delitem_hit)
  show "ring c' = remove1 x (ring c) @ [x]"
    unfolding c' using demote(1) [OF r x] by (simp add: rd)
  show "table c' = (table c)(k := None)" "length (nodes c') = length (nodes c)"
    "\<And>j. key (nodes c' ! j) = (if j = x then None else key (nodes c ! j))"
    "\<And>j. obj (nodes c' ! j) = (if j = x then None else obj (nodes c ! j))"
    using x by (simp_all add: c' mtf_table)
qed

lemma miss_effect:
  "table c k = None \<Longrightarrow> step c (Get k) = c"
  "table c k = None \<Longrightarrow> step c (Delete k) = c"
  by (simp_all add: getitem_def delitem_def)


subsection \<open>What the invariant gives\<close>

lemma occ_set:
  assumes "ring_ok c"
  shows "set (occ c) = {n. n < length (nodes c) \<and> key (nodes c ! n) \<noteq> None}"
    and "distinct (occ c)"
  using ring_ok_hd(4,5) [OF assms] by (auto simp: occ_def)

lemma stale_freeD:
  "stale_free c \<Longrightarrow> n < length (nodes c) \<Longrightarrow> key (nodes c ! n) \<noteq> None
   \<Longrightarrow> table c (key (nodes c ! n)) = Some n"
  by (simp add: stale_free_def)

lemma sorted_le_last: "sorted xs \<Longrightarrow> x \<in> set xs \<Longrightarrow> x \<le> last xs"
  by (induction xs) auto

lemma filter_length_all: "length (filter P xs) = length xs \<Longrightarrow> \<forall>x\<in>set xs. P x"
proof (induction xs)
  case Nil
  show ?case by simp
next
  case (Cons x xs)
  have le: "length (filter P xs) \<le> length xs" by (rule length_filter_le)
  show ?case
  proof (cases "P x")
    case True
    with Cons.prems have "length (filter P xs) = length xs" by simp
    then have "\<forall>y\<in>set xs. P y" by (rule Cons.IH)
    with True show ?thesis by simp
  next
    case False
    with Cons.prems have "length (filter P xs) = Suc (length xs)" by simp
    with le show ?thesis by linarith
  qed
qed

lemma inv_table:
  assumes "cache_inv c"
  shows "table c k = Some x \<longleftrightarrow> x \<in> set (occ c) \<and> key (nodes c ! x) = k"
proof
  assume "table c k = Some x"
  then show "x \<in> set (occ c) \<and> key (nodes c ! x) = k"
    using assms tbl_okD [of c k x] by (auto simp: cache_inv_def cache_wf_def refs_ok_def occ_set)
next
  assume "x \<in> set (occ c) \<and> key (nodes c ! x) = k"
  then show "table c k = Some x"
    using assms stale_freeD [of c x] by (auto simp: cache_inv_def cache_wf_def occ_set)
qed

lemma inv_keys_distinct:
  assumes "cache_inv c"
  shows "distinct (map (\<lambda>n. key (nodes c ! n)) (occ c))"
proof -
  have r: "ring_ok c" and sf: "stale_free c" using assms by (simp_all add: cache_inv_def cache_wf_def)
  have t: "table c (key (nodes c ! n)) = Some n" if "n \<in> set (occ c)" for n
  proof -
    from that have "n < length (nodes c)" "key (nodes c ! n) \<noteq> None"
      by (simp_all add: occ_set(1) [OF r])
    then show ?thesis by (rule stale_freeD [OF sf])
  qed
  have "inj_on (\<lambda>n. key (nodes c ! n)) (set (occ c))"
  proof (rule inj_onI)
    fix n m assume n: "n \<in> set (occ c)" and m: "m \<in> set (occ c)"
      and e: "key (nodes c ! n) = key (nodes c ! m)"
    have "Some n = table c (key (nodes c ! n))" using t [OF n] by simp
    also have "\<dots> = table c (key (nodes c ! m))" by (simp only: e)
    also have "\<dots> = Some m" by (rule t [OF m])
    finally show "n = m" by simp
  qed
  then show ?thesis using occ_set(2) [OF r] by (simp add: distinct_map)
qed

lemma inv_dom:
  assumes "cache_inv c"
  shows "dom (table c) = (\<lambda>n. key (nodes c ! n)) ` set (occ c)"
proof (rule set_eqI)
  fix k
  have "k \<in> dom (table c) \<longleftrightarrow> (\<exists>x. table c k = Some x)" by auto
  also have "\<dots> \<longleftrightarrow> (\<exists>x. x \<in> set (occ c) \<and> key (nodes c ! x) = k)"
    by (simp add: inv_table [OF assms])
  also have "\<dots> \<longleftrightarrow> k \<in> (\<lambda>n. key (nodes c ! n)) ` set (occ c)" by auto
  finally show "k \<in> dom (table c) \<longleftrightarrow> k \<in> (\<lambda>n. key (nodes c ! n)) ` set (occ c)" .
qed

lemma inv_len:
  assumes "cache_inv c"
  shows "len c = length (occ c)"
proof -
  have "card ((\<lambda>n. key (nodes c ! n)) ` set (occ c)) = length (map (\<lambda>n. key (nodes c ! n)) (occ c))"
    using distinct_card [OF inv_keys_distinct [OF assms]] by simp
  then show ?thesis by (simp add: len_def inv_dom [OF assms])
qed

lemma inv_ring_split:
  assumes "cache_inv c"
  shows "ring c = occ c @ filter (\<lambda>n. key (nodes c ! n) = None) (ring c)"
proof -
  have "sorted (map (\<lambda>n. key (nodes c ! n) = None) (ring c))"
    using assms by (simp add: cache_inv_def tail_empty_def)
  from sorted_bool_split [OF this] show ?thesis by (simp add: occ_def)
qed

lemma inv_take:
  assumes "cache_inv c"
  shows "take (len c) (ring c) = occ c"
    and "drop (len c) (ring c) = filter (\<lambda>n. key (nodes c ! n) = None) (ring c)"
proof -
  let ?F = "filter (\<lambda>n. key (nodes c ! n) = None) (ring c)"
  note e = inv_ring_split [OF assms]
  show "take (len c) (ring c) = occ c"
    using arg_cong [OF e, of "take (length (occ c))"] by (simp add: inv_len [OF assms])
  show "drop (len c) (ring c) = ?F"
    using arg_cong [OF e, of "drop (length (occ c))"] by (simp add: inv_len [OF assms])
qed

lemma inv_contents:
  assumes "cache_inv c"
  shows "contents c = map (kv c) (occ c)"
proof -
  have "len c \<le> length (nodes c)" using assms by (intro len_le) (simp_all add: cache_inv_def)
  then have "walk (nodes c) (head c) (len c) = take (len c) (ring c)"
    by (simp add: ring_def walk_take min_def)
  then show ?thesis by (simp add: contents_def inv_take(1) [OF assms] kv_def)
qed

lemma inv_full:
  assumes "cache_inv c"
  shows "key (nodes c ! last (ring c)) \<noteq> None \<longleftrightarrow> length (occ c) = length (nodes c)"
proof -
  let ?e = "\<lambda>n. key (nodes c ! n) = None"
  have r: "ring_ok c" using assms by (simp add: cache_inv_def cache_wf_def)
  note h = ring_ok_hd [OF r]
  have s: "sorted (map ?e (ring c))" using assms by (simp add: cache_inv_def tail_empty_def)
  show ?thesis
  proof
    assume a: "key (nodes c ! last (ring c)) \<noteq> None"
    have "\<not> ?e n" if "n \<in> set (ring c)" for n
    proof -
      have "?e n \<in> set (map ?e (ring c))" using that by simp
      then have "?e n \<le> last (map ?e (ring c))" using s by (rule sorted_le_last [rotated])
      then show ?thesis using a h(1) by (simp add: last_map)
    qed
    then have "occ c = ring c" by (simp add: occ_def filter_id_conv)
    then show "length (occ c) = length (nodes c)" using h(3) by simp
  next
    assume "length (occ c) = length (nodes c)"
    then have "length (filter (\<lambda>n. key (nodes c ! n) \<noteq> None) (ring c)) = length (ring c)"
      using h(3) by (simp add: occ_def)
    then have "\<forall>n\<in>set (ring c). key (nodes c ! n) \<noteq> None"
      by (rule filter_length_all)
    then show "key (nodes c ! last (ring c)) \<noteq> None" using h(1) by simp
  qed
qed


subsection \<open>The occupied nodes after each operation\<close>

lemma front_lists:
  assumes "P x"
  shows "filter P (x # remove1 x r) = x # remove1 x (filter P r)"
    and "sorted (map (\<lambda>n. \<not> P n) r) \<Longrightarrow> sorted (map (\<lambda>n. \<not> P n) (x # remove1 x r))"
proof -
  show "filter P (x # remove1 x r) = x # remove1 x (filter P r)"
    using assms by (simp add: filter_remove1)
  assume "sorted (map (\<lambda>n. \<not> P n) r)"
  then have "sorted (map (\<lambda>n. \<not> P n) (remove1 x r))" by (rule sorted_map_remove1)
  then show "sorted (map (\<lambda>n. \<not> P n) (x # remove1 x r))" using assms by simp
qed

lemma back_lists:
  assumes "distinct r" and "\<And>n. P' n = (n \<noteq> x \<and> P n)"
  shows "filter P' (remove1 x r @ [x]) = remove1 x (filter P r)"
    and "sorted (map (\<lambda>n. \<not> P n) r) \<Longrightarrow> sorted (map (\<lambda>n. \<not> P' n) (remove1 x r @ [x]))"
proof -
  have nx: "x \<notin> set (remove1 x r)" using assms(1) by simp
  have px: "\<not> P' x" by (simp add: assms(2))
  have f: "filter P' (remove1 x r) = filter P (remove1 x r)"
    using nx by (intro filter_cong refl) (auto simp: assms(2))
  have "filter P' (remove1 x r @ [x]) = filter P' (remove1 x r)"
    using px by simp
  also have "\<dots> = remove1 x (filter P r)"
    unfolding f by (rule filter_remove1)
  finally show "filter P' (remove1 x r @ [x]) = remove1 x (filter P r)" .
  assume "sorted (map (\<lambda>n. \<not> P n) r)"
  then have s: "sorted (map (\<lambda>n. \<not> P n) (remove1 x r))" by (rule sorted_map_remove1)
  have m: "map (\<lambda>n. \<not> P' n) (remove1 x r) = map (\<lambda>n. \<not> P n) (remove1 x r)"
    using nx by (intro map_cong refl) (auto simp: assms(2))
  have "sorted (map (\<lambda>n. \<not> P' n) (remove1 x r) @ [True])"
    unfolding m using s by (simp add: sorted_append)
  then show "sorted (map (\<lambda>n. \<not> P' n) (remove1 x r @ [x]))"
    using px by simp
qed

lemma tail_lists:
  assumes "distinct r" and "r \<noteq> []" and "\<And>n. P' n = (n = last r \<or> P n)"
  shows "filter P' (last r # butlast r)
         = last r # (if P (last r) then butlast (filter P r) else filter P r)"
    and "last r \<notin> set (if P (last r) then butlast (filter P r) else filter P r)"
    and "sorted (map (\<lambda>n. \<not> P n) r) \<Longrightarrow> sorted (map (\<lambda>n. \<not> P' n) (last r # butlast r))"
proof -
  let ?x = "last r" and ?b = "butlast r"
  have r: "r = ?b @ [?x]" using assms(2) by simp
  have nx: "?x \<notin> set ?b" using assms(1,2) by (rule last_notin_butlast)
  have px: "P' ?x" by (simp add: assms(3))
  have f: "filter P' ?b = filter P ?b"
    using nx by (intro filter_cong refl) (auto simp: assms(3))
  have o: "filter P r = filter P ?b @ (if P ?x then [?x] else [])"
    using assms(2) by (rule filter_butlast_last)
  have g: "filter P ?b = (if P ?x then butlast (filter P r) else filter P r)"
    by (subst (1 2) o) simp
  have "filter P' (?x # ?b) = ?x # filter P' ?b" using px by simp
  then show "filter P' (?x # ?b) = ?x # (if P ?x then butlast (filter P r) else filter P r)"
    unfolding f g .
  have "?x \<notin> set (filter P ?b)" using nx by simp
  then show "?x \<notin> set (if P ?x then butlast (filter P r) else filter P r)"
    unfolding g .
  assume "sorted (map (\<lambda>n. \<not> P n) r)"
  then have "sorted (map (\<lambda>n. \<not> P n) (?b @ [?x]))" using r by simp
  then have s: "sorted (map (\<lambda>n. \<not> P n) ?b)" by (simp add: sorted_append)
  have m: "map (\<lambda>n. \<not> P' n) ?b = map (\<lambda>n. \<not> P n) ?b"
    using nx by (intro map_cong refl) (auto simp: assms(3))
  have "sorted (False # map (\<lambda>n. \<not> P' n) ?b)"
    unfolding m using s by simp
  then show "sorted (map (\<lambda>n. \<not> P' n) (?x # ?b))"
    using px by simp
qed

lemma occ_alt: "occ c = filter (\<lambda>n. key (nodes c ! n) \<noteq> None) (ring c)"
  and tail_empty_alt:
    "tail_empty c = sorted (map (\<lambda>n. \<not> key (nodes c ! n) \<noteq> None) (ring c))"
  by (simp_all add: occ_def tail_empty_def)

lemma occ_promote:
  assumes "ring c' = x # remove1 x (ring c)"
    and "\<And>j. key (nodes c' ! j) = key (nodes c ! j)" and "key (nodes c ! x) \<noteq> None"
  shows "occ c' = x # remove1 x (occ c)"
    and "tail_empty c \<Longrightarrow> tail_empty c'"
  unfolding occ_alt tail_empty_alt assms(1,2)
  using front_lists [of "\<lambda>n. key (nodes c ! n) \<noteq> None" x "ring c", OF assms(3)]
  by blast+

lemma occ_delete:
  assumes "ring c' = remove1 x (ring c) @ [x]" and "distinct (ring c)"
    and "\<And>j. key (nodes c' ! j) = (if j = x then None else key (nodes c ! j))"
  shows "occ c' = remove1 x (occ c)"
    and "tail_empty c \<Longrightarrow> tail_empty c'"
proof -
  have "(key (nodes c' ! n) \<noteq> None) = (n \<noteq> x \<and> key (nodes c ! n) \<noteq> None)" for n
    by (simp add: assms(3) del: not_None_eq)
  from back_lists [of "ring c" "\<lambda>n. key (nodes c' ! n) \<noteq> None" x
      "\<lambda>n. key (nodes c ! n) \<noteq> None", OF assms(2) this]
  show "occ c' = remove1 x (occ c)" and "tail_empty c \<Longrightarrow> tail_empty c'"
    unfolding occ_alt tail_empty_alt assms(1) by blast+
qed

lemma occ_insert:
  assumes "ring c' = last (ring c) # butlast (ring c)" and "distinct (ring c)" and "ring c \<noteq> []"
    and "\<And>j. key (nodes c' ! j) = (if j = last (ring c) then k else key (nodes c ! j))"
    and "k \<noteq> None"
  shows "occ c' = last (ring c) #
           (if key (nodes c ! last (ring c)) \<noteq> None then butlast (occ c) else occ c)"
    and "last (ring c) \<notin>
           set (if key (nodes c ! last (ring c)) \<noteq> None then butlast (occ c) else occ c)"
    and "tail_empty c \<Longrightarrow> tail_empty c'"
proof -
  have "(key (nodes c' ! n) \<noteq> None) = (n = last (ring c) \<or> key (nodes c ! n) \<noteq> None)" for n
    using assms(5) by (simp add: assms(4) del: not_None_eq)
  from tail_lists [of "ring c" "\<lambda>n. key (nodes c' ! n) \<noteq> None"
      "\<lambda>n. key (nodes c ! n) \<noteq> None", OF assms(2,3) this]
  show "occ c' = last (ring c) #
           (if key (nodes c ! last (ring c)) \<noteq> None then butlast (occ c) else occ c)"
    and "last (ring c) \<notin>
           set (if key (nodes c ! last (ring c)) \<noteq> None then butlast (occ c) else occ c)"
    and "tail_empty c \<Longrightarrow> tail_empty c'"
    unfolding occ_alt tail_empty_alt assms(1) by blast+
qed


subsection \<open>Agreement with the reference cache\<close>

lemma fst_kv [simp]: "fst (kv c n) = key (nodes c ! n)"
  by (simp add: kv_def)

lemma rel_set:
  assumes "rel c s"
  shows "set (cache s) = kv c ` set (occ c)"
proof -
  have "set (cache s) = set (rev (cache s))" by simp
  also have "\<dots> = set (map (kv c) (occ c))" using assms by (simp only: rel_def)
  finally show ?thesis by simp
qed

lemma rel_distinct:
  assumes "cache_inv c" and "rel c s"
  shows "distinct (map fst (cache s))"
proof -
  have "map fst (rev (cache s)) = map fst (map (kv c) (occ c))"
    using assms(2) by (simp only: rel_def)
  also have "\<dots> = map (\<lambda>n. key (nodes c ! n)) (occ c)" by simp
  finally have "distinct (map fst (rev (cache s)))"
    using inv_keys_distinct [OF assms(1)] by simp
  then have "distinct (rev (map fst (cache s)))" by (simp only: rev_map)
  then show ?thesis by (simp only: distinct_rev)
qed

lemma rel_length:
  assumes "cache_inv c" and "rel c s"
  shows "length (cache s) = len c"
proof -
  have "length (rev (cache s)) = length (map (kv c) (occ c))"
    using assms(2) by (simp only: rel_def)
  then show ?thesis by (simp add: inv_len [OF assms(1)])
qed

lemma rel_miss:
  assumes "cache_inv c" and "rel c s"
  shows "find_key k (cache s) = None \<longleftrightarrow> table c k = None"
proof -
  have "fst ` set (cache s) = (\<lambda>n. key (nodes c ! n)) ` set (occ c)"
    by (simp add: rel_set [OF assms(2)] image_image)
  then have "fst ` set (cache s) = dom (table c)" by (simp add: inv_dom [OF assms(1)])
  then show ?thesis by (auto simp: find_key_None)
qed

lemma rel_hit:
  assumes "cache_inv c" and "rel c s" and "table c k = Some x"
  obtains i where "find_key k (cache s) = Some i" and "cache s ! i = kv c x"
    and "del_at i (cache s) = filter (\<lambda>p. fst p \<noteq> k) (cache s)"
proof -
  have "find_key k (cache s) \<noteq> None" using rel_miss [OF assms(1,2), of k] assms(3) by simp
  then obtain i where i: "find_key k (cache s) = Some i" by auto
  note f = find_key_Some [OF i rel_distinct [OF assms(1,2)]]
  have "cache s ! i \<in> set (cache s)" using f(1) by simp
  then obtain y where y: "y \<in> set (occ c)" "cache s ! i = kv c y"
    by (auto simp: rel_set [OF assms(2)])
  then have "key (nodes c ! y) = k" using f(2) by simp
  then have "table c k = Some y" using y(1) by (simp add: inv_table [OF assms(1)])
  then have "y = x" using assms(3) by simp
  then show ?thesis using that i y(2) f(3) by simp
qed

lemma map_kv_cong:
  assumes "\<And>n. n \<in> set xs \<Longrightarrow> key (nodes c' ! n) = key (nodes c ! n)"
    and "\<And>n. n \<in> set xs \<Longrightarrow> obj (nodes c' ! n) = obj (nodes c ! n)"
  shows "map (kv c') xs = map (kv c) xs"
  using assms by (intro map_cong refl) (simp add: kv_def)

lemma map_kv_remove1:
  assumes "cache_inv c" and "table c k = Some x"
  shows "map (kv c) (remove1 x (occ c)) = filter (\<lambda>p. fst p \<noteq> k) (map (kv c) (occ c))"
proof -
  have x: "x \<in> set (occ c)" "key (nodes c ! x) = k"
    using assms(2) by (simp_all add: inv_table [OF assms(1)])
  show ?thesis
    using map_remove1_filter [of "\<lambda>n. key (nodes c ! n)" "occ c" x "kv c",
        OF inv_keys_distinct [OF assms(1)] x(1)]
    by (simp add: x(2))
qed


subsection \<open>Each operation keeps the invariant and the agreement with the reference cache\<close>

lemma inv_parts:
  assumes "cache_inv c"
  shows "cache_wf c" and "tbl_ok c" and "stale_free c" and "tail_empty c" and "ring_ok c"
  using assms by (simp_all add: cache_inv_def cache_wf_def)

lemma stale_free_same:
  assumes "stale_free c" and "table c' = table c" and "length (nodes c') = length (nodes c)"
    and "\<And>j. key (nodes c' ! j) = key (nodes c ! j)"
  shows "stale_free c'"
  using assms by (simp add: stale_free_def)

lemma tbl_ok_same:
  assumes "tbl_ok c" and "table c' = table c"
    and "\<And>j. key (nodes c' ! j) = key (nodes c ! j)"
  shows "tbl_ok c'"
  using assms by (simp add: tbl_ok_def)

lemma hit_key:
  assumes "cache_inv c" and "table c k = Some x"
  shows "key (nodes c ! x) = k" and "key (nodes c ! x) \<noteq> None" and "x < length (nodes c)"
    and "x \<in> set (occ c)"
  using tbl_okD [OF inv_parts(2) [OF assms(1)] assms(2)] inv_parts(1) [OF assms(1)] assms(2)
    inv_table [OF assms(1), of k x]
  by (simp_all add: cache_wf_def refs_ok_def)

lemma step_get:
  assumes "cache_inv c" and "rel c s"
  shows "cache_inv (step c (Get k)) \<and> rel (step c (Get k)) (simple_step s (Get k))"
proof (cases "table c k")
  case None
  then have "find_key k (cache s) = None" by (simp add: rel_miss [OF assms])
  then have "simple_step s (Get k) = s" by (simp add: simple_getitem_def)
  moreover have "step c (Get k) = c" using None by (rule miss_effect(1))
  ultimately show ?thesis using assms by (simp only:)
next
  case (Some x)
  define c' where "c' = step c (Get k)"
  define s' where "s' = simple_step s (Get k)"
  note p = inv_parts [OF assms(1)]
    and e = get_effect [OF inv_parts(1) [OF assms(1)] Some, folded c'_def]
    and h = hit_key [OF assms(1) Some]
  have o: "occ c' = x # remove1 x (occ c)" and te: "tail_empty c'"
    using occ_promote [of c' x c, OF e(1,4) h(2)] p(4) by simp_all
  have "cache_wf c'" unfolding c'_def using p(1) by (rule wf_step)
  then have "cache_inv c'"
    unfolding cache_inv_def
    using tbl_ok_same [OF p(2) e(2,4)] stale_free_same [OF p(3) e(2,3,4)] te by simp
  moreover have "rel c' s'"
  proof -
    obtain i where i: "find_key k (cache s) = Some i" "cache s ! i = kv c x"
      "del_at i (cache s) = filter (\<lambda>p. fst p \<noteq> k) (cache s)"
      using rel_hit [OF assms Some] by blast
    have s': "cache s' = filter (\<lambda>p. fst p \<noteq> k) (cache s) @ [kv c x]" "csize s' = csize s"
      using i by (simp_all add: s'_def simple_getitem_def Let_def)
    have "map (kv c') (occ c') = map (kv c) (x # remove1 x (occ c))"
      unfolding o by (rule map_kv_cong) (simp_all add: e(4,5))
    also have "\<dots> = kv c x # filter (\<lambda>p. fst p \<noteq> k) (map (kv c) (occ c))"
      by (simp add: map_kv_remove1 [OF assms(1) Some])
    also have "map (kv c) (occ c) = rev (cache s)" using assms(2) by (simp only: rel_def)
    finally have "map (kv c') (occ c') = rev (cache s')"
      by (simp add: s'(1) rev_filter)
    then show ?thesis using assms(2) by (simp add: rel_def s'(2) e(3))
  qed
  ultimately show ?thesis unfolding c'_def s'_def by (rule conjI)
qed

lemma step_set_hit:
  assumes "cache_inv c" and "rel c s" and "table c k = Some x"
  shows "cache_inv (step c (Set k v)) \<and> rel (step c (Set k v)) (simple_step s (Set k v))"
proof -
  define c' where "c' = step c (Set k v)"
  define s' where "s' = simple_step s (Set k v)"
  note p = inv_parts [OF assms(1)]
    and e = set_hit_effect [where v = v, OF inv_parts(1) [OF assms(1)] assms(3), folded c'_def]
    and h = hit_key [OF assms(1,3)]
  have o: "occ c' = x # remove1 x (occ c)" and te: "tail_empty c'"
    using occ_promote [of c' x c, OF e(1,4) h(2)] p(4) by simp_all
  have "cache_wf c'" unfolding c'_def using p(1) by (rule wf_step)
  then have "cache_inv c'"
    unfolding cache_inv_def
    using tbl_ok_same [OF p(2) e(2,4)] stale_free_same [OF p(3) e(2,3,4)] te by simp
  moreover have "rel c' s'"
  proof -
    obtain i where i: "find_key k (cache s) = Some i" "cache s ! i = kv c x"
      "del_at i (cache s) = filter (\<lambda>p. fst p \<noteq> k) (cache s)"
      using rel_hit [OF assms] by blast
    have s': "cache s' = filter (\<lambda>p. fst p \<noteq> k) (cache s) @ [(k, v)]" "csize s' = csize s"
      using i h(1) by (simp_all add: s'_def simple_setitem_def Let_def)
    have nx: "x \<notin> set (remove1 x (occ c))"
      using occ_set(2) [OF p(5)] by simp
    have "map (kv c') (remove1 x (occ c)) = map (kv c) (remove1 x (occ c))"
    proof (rule map_kv_cong)
      fix n assume "n \<in> set (remove1 x (occ c))"
      then have "n \<noteq> x" using nx by auto
      then show "key (nodes c' ! n) = key (nodes c ! n)" "obj (nodes c' ! n) = obj (nodes c ! n)"
        by (simp_all add: e(4,5))
    qed
    moreover have "kv c' x = (k, v)" using h(1) by (simp add: kv_def e(4,5))
    ultimately have "map (kv c') (occ c') = (k, v) # map (kv c) (remove1 x (occ c))"
      unfolding o by simp
    also have "\<dots> = (k, v) # filter (\<lambda>p. fst p \<noteq> k) (map (kv c) (occ c))"
      by (simp add: map_kv_remove1 [OF assms(1,3)])
    also have "map (kv c) (occ c) = rev (cache s)" using assms(2) by (simp only: rel_def)
    finally have "map (kv c') (occ c') = rev (cache s')"
      by (simp add: s'(1) rev_filter)
    then show ?thesis using assms(2) by (simp add: rel_def s'(2) e(3))
  qed
  ultimately show ?thesis unfolding c'_def s'_def by (rule conjI)
qed

lemma step_set_miss:
  assumes "cache_inv c" and "rel c s" and "table c k = None" and "k \<noteq> None"
  shows "cache_inv (step c (Set k v)) \<and> rel (step c (Set k v)) (simple_step s (Set k v))"
proof -
  define c' where "c' = step c (Set k v)"
  define s' where "s' = simple_step s (Set k v)"
  define x where "x = last (ring c)"
  define old where "old = key (nodes c ! x)"
  define F where "F = (if old \<noteq> None then butlast (occ c) else occ c)"
  note p = inv_parts [OF assms(1)]
  note r = ring_ok_hd [OF p(5)]
  have xr: "x \<in> set (ring c)" using r(1) by (simp add: x_def)
  then have xl: "x < length (nodes c)" using r(4) by simp
  have ox: "table c old = Some x" if "old \<noteq> None"
    using stale_freeD [OF p(3) xl] that by (simp add: old_def)
  then have pre: "key (nodes c ! last (ring c)) \<noteq> None
      \<longrightarrow> table c (key (nodes c ! last (ring c))) \<noteq> None"
    by (simp add: old_def x_def)
  note e = set_miss_effect(1-5) [where v = v, OF p(1) assms(3) pre, folded c'_def x_def, folded old_def]
  note o = occ_insert [of c' c k, OF e(1) [unfolded x_def] r(5,1) e(4) [unfolded x_def] assms(4),
      folded x_def, folded old_def, folded F_def]
  have "cache_wf c'" unfolding c'_def using p(1) by (rule wf_step)
  moreover have "tbl_ok c'" unfolding c'_def using p(1,2) assms(4) by (intro tbl_ok_step) simp_all
  moreover have "stale_free c'"
    unfolding stale_free_def
  proof (intro allI impI)
    fix n assume n: "n < length (nodes c')" and kn: "key (nodes c' ! n) \<noteq> None"
    show "table c' (key (nodes c' ! n)) = Some n"
    proof (cases "n = x")
      case True
      then show ?thesis by (simp add: e(2,4))
    next
      case False
      then have k': "key (nodes c' ! n) = key (nodes c ! n)" by (simp add: e(4))
      have t: "table c (key (nodes c ! n)) = Some n"
        using stale_freeD [OF p(3), of n] n kn by (simp add: e(3) k')
      have "key (nodes c ! n) \<noteq> k" using t assms(3) by auto
      moreover have "key (nodes c ! n) \<noteq> old" if "old \<noteq> None"
        using ox [OF that] t False by auto
      ultimately show ?thesis using t by (simp add: e(2) k')
    qed
  qed
  ultimately have "cache_inv c'" using o(3) [OF p(4)] by (simp add: cache_inv_def)
  moreover have "rel c' s'"
  proof -
    have fk: "find_key k (cache s) = None" using assms(3) by (simp add: rel_miss [OF assms(1,2)])
    have "length (cache s) = length (occ c)"
      by (simp add: rel_length [OF assms(1,2)] inv_len [OF assms(1)])
    moreover have "csize s = int (length (nodes c))" using assms(2) by (simp add: rel_def)
    ultimately have full: "(int (length (cache s)) = csize s) = (old \<noteq> None)"
      using inv_full [OF assms(1)] by (simp add: old_def x_def del: not_None_eq)
    have s': "cache s' = (if old \<noteq> None then drop 1 (cache s) else cache s) @ [(k, v)]"
      "csize s' = csize s"
      using fk full by (simp_all add: s'_def simple_setitem_def Let_def del: not_None_eq)
    have m: "map (kv c) (occ c) = rev (cache s)" using assms(2) by (simp only: rel_def)
    have "map (kv c') F = map (kv c) F"
    proof (rule map_kv_cong)
      fix n assume "n \<in> set F"
      then have "n \<noteq> x" using o(2) by auto
      then show "key (nodes c' ! n) = key (nodes c ! n)" "obj (nodes c' ! n) = obj (nodes c ! n)"
        by (simp_all add: e(4,5))
    qed
    moreover have "kv c' x = (k, v)" using xl by (simp add: kv_def e(4,5))
    ultimately have "map (kv c') (occ c') = (k, v) # map (kv c) F"
      unfolding o(1) by simp
    also have "map (kv c) F = (if old \<noteq> None then butlast (rev (cache s)) else rev (cache s))"
      by (simp add: F_def map_butlast m del: not_None_eq)
    also have "butlast (rev (cache s)) = rev (drop 1 (cache s))"
      by (simp add: butlast_rev drop_Suc)
    finally have "map (kv c') (occ c') = rev (cache s')"
      by (simp add: s'(1) del: not_None_eq)
    then show ?thesis using assms(2) by (simp add: rel_def s'(2) e(3))
  qed
  ultimately show ?thesis unfolding c'_def s'_def by (rule conjI)
qed

lemma step_delete:
  assumes "cache_inv c" and "rel c s"
  shows "cache_inv (step c (Delete k)) \<and> rel (step c (Delete k)) (simple_step s (Delete k))"
proof (cases "table c k")
  case None
  then have "find_key k (cache s) = None" by (simp add: rel_miss [OF assms])
  then have "simple_step s (Delete k) = s" by (simp add: simple_delitem_def)
  moreover have "step c (Delete k) = c" using None by (rule miss_effect(2))
  ultimately show ?thesis using assms by (simp only:)
next
  case (Some x)
  define c' where "c' = step c (Delete k)"
  define s' where "s' = simple_step s (Delete k)"
  note p = inv_parts [OF assms(1)]
    and e = delete_effect [OF inv_parts(1) [OF assms(1)] Some, folded c'_def]
    and h = hit_key [OF assms(1) Some]
  note r = ring_ok_hd [OF p(5)]
  note o = occ_delete [of c' x c, OF e(1) r(5) e(4)]
  have "cache_wf c'" unfolding c'_def using p(1) by (rule wf_step)
  moreover have "tbl_ok c'" unfolding c'_def using p(1,2) by (intro tbl_ok_step) simp_all
  moreover have "stale_free c'"
    unfolding stale_free_def
  proof (intro allI impI)
    fix n assume n: "n < length (nodes c')" and kn: "key (nodes c' ! n) \<noteq> None"
    have nx: "n \<noteq> x" using kn by (auto simp: e(4))
    then have k': "key (nodes c' ! n) = key (nodes c ! n)" by (simp add: e(4))
    have t: "table c (key (nodes c ! n)) = Some n"
      using stale_freeD [OF p(3), of n] n kn by (simp add: e(3) k')
    have "key (nodes c ! n) \<noteq> k" using t Some nx by auto
    then show "table c' (key (nodes c' ! n)) = Some n" using t by (simp add: e(2) k')
  qed
  ultimately have "cache_inv c'" using o(2) [OF p(4)] by (simp add: cache_inv_def)
  moreover have "rel c' s'"
  proof -
    obtain i where i: "find_key k (cache s) = Some i" "cache s ! i = kv c x"
      "del_at i (cache s) = filter (\<lambda>p. fst p \<noteq> k) (cache s)"
      using rel_hit [OF assms Some] by blast
    have s': "cache s' = filter (\<lambda>p. fst p \<noteq> k) (cache s)" "csize s' = csize s"
      using i by (simp_all add: s'_def simple_delitem_def)
    have nx: "x \<notin> set (remove1 x (occ c))"
      using occ_set(2) [OF p(5)] by simp
    have "map (kv c') (remove1 x (occ c)) = map (kv c) (remove1 x (occ c))"
    proof (rule map_kv_cong)
      fix n assume "n \<in> set (remove1 x (occ c))"
      then have "n \<noteq> x" using nx by auto
      then show "key (nodes c' ! n) = key (nodes c ! n)" "obj (nodes c' ! n) = obj (nodes c ! n)"
        by (simp_all add: e(4,5))
    qed
    then have "map (kv c') (occ c') = filter (\<lambda>p. fst p \<noteq> k) (map (kv c) (occ c))"
      unfolding o(1) by (simp add: map_kv_remove1 [OF assms(1) Some])
    also have "map (kv c) (occ c) = rev (cache s)" using assms(2) by (simp only: rel_def)
    finally have "map (kv c') (occ c') = rev (cache s')"
      by (simp add: s'(1) rev_filter)
    then show ?thesis using assms(2) by (simp add: rel_def s'(2) e(3))
  qed
  ultimately show ?thesis unfolding c'_def s'_def by (rule conjI)
qed


subsection \<open>Nodes that hold a key the table does not give to them stay that way\<close>

lemma stale_back:
  assumes "cache_wf c" and "tbl_ok c" and "stale_free (step c op)"
  shows "stale_free c"
proof (cases op)
  case (Get k)
  show ?thesis
  proof (cases "table c k")
    case None
    then show ?thesis using assms(3) Get by (simp only: miss_effect(1))
  next
    case (Some x)
    note e = get_effect [OF assms(1) Some]
    show ?thesis
      using assms(3) unfolding Get by (rule stale_free_same) (simp_all only: e)
  qed
next
  case (Set k v)
  show ?thesis
  proof (cases "table c k")
    case (Some x)
    note e = set_hit_effect [where v = v, OF assms(1) Some]
    show ?thesis
      using assms(3) unfolding Set by (rule stale_free_same) (simp_all only: e)
  next
    case None
    define x where "x = last (ring c)"
    define old where "old = key (nodes c ! x)"
    have r: "ring_ok c" using assms(1) by (simp add: cache_wf_def)
    have px: "prev (nodes c ! head c) = x" by (simp add: x_def ring_ok_last [OF r])
    show ?thesis
    proof (cases "old \<noteq> None \<and> table c old = None")
      case True
      then have "setitem c k v = Inl KeyError"
        using None by (simp add: setitem_miss Let_def px old_def del: not_None_eq)
      then have "step c op = c" by (simp add: Set)
      then show ?thesis using assms(3) by simp
    next
      case False
      have pre: "key (nodes c ! last (ring c)) \<noteq> None
          \<longrightarrow> table c (key (nodes c ! last (ring c))) \<noteq> None"
      proof
        assume "key (nodes c ! last (ring c)) \<noteq> None"
        then have "old \<noteq> None" unfolding old_def x_def .
        with False have "table c old \<noteq> None" by blast
        then show "table c (key (nodes c ! last (ring c))) \<noteq> None"
          unfolding old_def x_def .
      qed
      define c' where "c' = step c (Set k v)"
      note e = set_miss_effect(1-5) [where v = v, OF assms(1) None pre,
          folded c'_def x_def, folded old_def]
      have sf: "stale_free c'" using assms(3) by (simp only: c'_def Set)
      show ?thesis
        unfolding stale_free_def
      proof (intro allI impI)
        fix n assume n: "n < length (nodes c)" and kn: "key (nodes c ! n) \<noteq> None"
        show "table c (key (nodes c ! n)) = Some n"
        proof (cases "n = x")
          case True
          then have o: "old \<noteq> None" using kn by (simp add: old_def)
          then obtain m where m: "table c old = Some m" using False by auto
          have km: "key (nodes c ! m) = old" and ml: "m < length (nodes c)"
            using tbl_okD [OF assms(2) m] assms(1) m by (simp_all add: cache_wf_def refs_ok_def)
          have "m = x"
          proof (rule ccontr)
            assume mx: "m \<noteq> x"
            then have "key (nodes c' ! m) = old" by (simp add: e(4) km)
            then have "table c' old = Some m"
              using stale_freeD [OF sf, of m] ml o by (simp add: e(3))
            then show False using mx o by (simp add: e(2) split: if_splits)
          qed
          then show ?thesis using m True by (simp add: old_def)
        next
          case False
          then have k': "key (nodes c' ! n) = key (nodes c ! n)" by (simp add: e(4))
          have "table c' (key (nodes c ! n)) = Some n"
            using stale_freeD [OF sf, of n] n kn by (simp add: e(3) k')
          then show ?thesis using False by (simp add: e(2) split: if_splits)
        qed
      qed
    qed
  qed
next
  case (Delete k)
  show ?thesis
  proof (cases "table c k")
    case None
    then show ?thesis using assms(3) Delete by (simp only: miss_effect(2))
  next
    case (Some x)
    define c' where "c' = step c (Delete k)"
    note e = delete_effect [OF assms(1) Some, folded c'_def]
    have sf: "stale_free c'" using assms(3) by (simp only: c'_def Delete)
    show ?thesis
      unfolding stale_free_def
    proof (intro allI impI)
      fix n assume n: "n < length (nodes c)" and kn: "key (nodes c ! n) \<noteq> None"
      show "table c (key (nodes c ! n)) = Some n"
      proof (cases "n = x")
        case True
        then show ?thesis using tbl_okD [OF assms(2) Some] Some by simp
      next
        case False
        then have k': "key (nodes c' ! n) = key (nodes c ! n)" by (simp add: e(4))
        have "table c' (key (nodes c ! n)) = Some n"
          using stale_freeD [OF sf, of n] n kn by (simp add: e(3) k')
        then show ?thesis by (simp add: e(2) split: if_splits)
      qed
    qed
  qed
next
  case Clear
  have "key (nodes c ! n) = None" if "n < length (nodes c)" for n
  proof (rule ccontr)
    assume "key (nodes c ! n) \<noteq> None"
    then have "table (clear c) (key (nodes (clear c) ! n)) = Some n"
      using stale_freeD [of "clear c" n] assms(3) that by (simp add: Clear clear_def)
    then show False by (simp add: clear_def)
  qed
  then show ?thesis by (simp add: stale_free_def)
qed

lemma clear_id:
  assumes "cache_wf c" and "tbl_ok c" and "stale_free (clear c)"
  shows "clear c = c"
proof -
  have e: "key (nodes c ! n) = None" if "n < length (nodes c)" for n
  proof (rule ccontr)
    assume "key (nodes c ! n) \<noteq> None"
    then have "table (clear c) (key (nodes (clear c) ! n)) = Some n"
      using stale_freeD [of "clear c" n] assms(3) that by (simp add: clear_def)
    then show False by (simp add: clear_def)
  qed
  have "table c k = None" for k
  proof (rule ccontr)
    assume "table c k \<noteq> None"
    then obtain n where n: "table c k = Some n" by auto
    then have "n < length (nodes c)" using assms(1) by (simp add: cache_wf_def refs_ok_def)
    then show False using e [of n] tbl_okD [OF assms(2) n] by simp
  qed
  then have "table c = Map.empty" by (rule ext)
  then show ?thesis by (simp add: clear_def)
qed

lemma full_stale_free:
  assumes "cache_wf c" and "tbl_ok c" and "len c = length (nodes c)"
  shows "stale_free c"
proof -
  let ?f = "\<lambda>k. the (table c k)"
  have fin: "finite (dom (table c))" using assms(1) by (simp add: cache_wf_def refs_ok_def)
  have inj: "inj_on ?f (dom (table c))"
  proof (rule inj_onI)
    fix k k' assume "k \<in> dom (table c)" "k' \<in> dom (table c)" "?f k = ?f k'"
    then obtain n where n: "table c k = Some n" "table c k' = Some n" by auto
    show "k = k'" using tbl_okD [OF assms(2) n(1)] tbl_okD [OF assms(2) n(2)] by simp
  qed
  have sub: "?f ` dom (table c) \<subseteq> {..<length (nodes c)}"
    using assms(1) by (auto simp: cache_wf_def refs_ok_def)
  have "card (?f ` dom (table c)) = card {..<length (nodes c)}"
    using card_image [OF inj] assms(3) by (simp add: len_def)
  with sub have img: "?f ` dom (table c) = {..<length (nodes c)}"
    by (intro card_subset_eq) simp_all
  show ?thesis
    unfolding stale_free_def
  proof (intro allI impI)
    fix n assume "n < length (nodes c)"
    then have "n \<in> ?f ` dom (table c)" by (simp add: img)
    then obtain k where k: "table c k = Some n" by auto
    then show "table c (key (nodes c ! n)) = Some n" using tbl_okD [OF assms(2) k] by simp
  qed
qed


subsection \<open>Sequences of operations keep the invariant\<close>

lemma step_any:
  assumes "cache_inv c" and "rel c s" and "proper_key op" and "op \<noteq> Clear"
  shows "cache_inv (step c op) \<and> rel (step c op) (simple_step s op)"
proof (cases op)
  case (Get k)
  show ?thesis unfolding Get using assms(1,2) by (rule step_get)
next
  case (Set k v)
  then have k: "k \<noteq> None" using assms(3) by simp
  show ?thesis
  proof (cases "table c k")
    case None
    show ?thesis unfolding Set using assms(1,2) None k by (rule step_set_miss)
  next
    case (Some x)
    show ?thesis unfolding Set using assms(1,2) Some by (rule step_set_hit)
  qed
next
  case (Delete k)
  show ?thesis unfolding Delete using assms(1,2) by (rule step_delete)
next
  case Clear
  then show ?thesis using assms(4) by simp
qed

lemma sorted_map_const: "\<forall>x\<in>set xs. f x \<Longrightarrow> sorted (map f xs)"
  by (induction xs) auto

lemma inv_init:
  assumes "lrucache_init sz = Inr c0"
  shows "cache_inv c0" and "rel c0 (simple_init sz)"
proof -
  note i = lrucache_init_ok [OF assms]
  have e: "key (nodes c0 ! n) = None" if "n \<in> set (ring c0)" for n
    using that ring_ok_hd(4) [OF i(1)] i(5) by (simp add: all_empty_def)
  then have "tail_empty c0" unfolding tail_empty_def by (intro sorted_map_const) simp
  moreover have "stale_free c0" using i(5) by (simp add: stale_free_def all_empty_def)
  ultimately show "cache_inv c0"
    using wf_init [OF assms] tbl_ok_init [OF assms] by (simp add: cache_inv_def)
  have "occ c0 = []" using e by (simp add: occ_def filter_empty_conv)
  then show "rel c0 (simple_init sz)" using i(3,4) by (simp add: rel_def simple_init_def)
qed

lemma simple_run_snoc: "simple_run s (ops @ [op]) = simple_step (simple_run s ops) op"
  by (simp add: simple_run_def)

lemma run_inv:
  assumes "lrucache_init sz = Inr c0" and "\<forall>op\<in>set ops. proper_key op"
    and "stale_free (run c0 ops)"
  shows "cache_inv (run c0 ops) \<and> rel (run c0 ops) (simple_run (simple_init sz) ops)"
  using assms(2,3)
proof (induction ops rule: rev_induct)
  case Nil
  show ?case using inv_init [OF assms(1)] by (simp add: run_def simple_run_def)
next
  case (snoc op ops)
  let ?c = "run c0 ops" and ?s = "simple_run (simple_init sz) ops"
  have p: "\<forall>op\<in>set ops. proper_key op" "proper_key op" using snoc.prems(1) by simp_all
  have w: "cache_wf ?c" using assms(1) by (intro wf_run wf_init)
  have t: "tbl_ok ?c" using assms(1) p(1) by (intro tbl_ok_run wf_init tbl_ok_init)
  have sf': "stale_free (step ?c op)" using snoc.prems(2) by (simp only: run_snoc)
  have "stale_free ?c" using w t sf' by (rule stale_back)
  then have ih: "cache_inv ?c" "rel ?c ?s" using snoc.IH [OF p(1)] by simp_all
  show ?case
  proof (cases "op = Clear")
    case True
    have "clear ?c = ?c" using w t sf' by (intro clear_id) (simp_all add: True)
    then show ?thesis using ih by (simp add: run_snoc simple_run_snoc True)
  next
    case False
    show ?thesis
      unfolding run_snoc simple_run_snoc using ih p(2) False by (rule step_any)
  qed
qed

lemma run_inv_no_clear:
  assumes "lrucache_init sz = Inr c0" and "\<forall>op\<in>set ops. proper_key op" and "Clear \<notin> set ops"
  shows "cache_inv (run c0 ops) \<and> rel (run c0 ops) (simple_run (simple_init sz) ops)"
  using assms(2,3)
proof (induction ops rule: rev_induct)
  case Nil
  show ?case using inv_init [OF assms(1)] by (simp add: run_def simple_run_def)
next
  case (snoc op ops)
  then have "cache_inv (run c0 ops)" "rel (run c0 ops) (simple_run (simple_init sz) ops)"
    "proper_key op" "op \<noteq> Clear"
    by auto
  then show ?case unfolding run_snoc simple_run_snoc by (rule step_any)
qed

section \<open>The claims\<close>

subsection \<open>Deleting an absent key\<close>

text \<open>
  C2, as the code has it: \<^verbatim>\<open>__delitem__\<close> of a key that is not in the table raises
  \<^verbatim>\<open>KeyError\<close> and leaves the cache as it was; after a set and a delete of a key, a
  second delete of it raises \<^verbatim>\<open>KeyError\<close>, changes nothing, and the key is not
  contained.
\<close>

theorem delitem_absent_raises:
  "(table c k = None \<longrightarrow> delitem c k = Inl KeyError \<and> step c (Delete k) = c) \<and>
   (\<forall>c1 c2. setitem c k v = Inr c1 \<and> delitem c1 k = Inr c2 \<longrightarrow>
      delitem c2 k = Inl KeyError \<and> step c2 (Delete k) = c2 \<and> \<not> contains c2 k)"
proof -
  have a: "delitem c' k = Inl KeyError \<and> step c' (Delete k) = c'"
    if "table c' k = None" for c' :: "('a, 'b) lrucache"
    using that by (simp add: delitem_def)
  have b: "table c2 k = None"
    if "delitem c1 k = Inr c2" for c1 c2 :: "('a, 'b) lrucache"
    using that by (auto simp: delitem_def dict_del_def Let_def mtf_table split: option.splits)
  show ?thesis using a b by (auto simp: contains_def)
qed

theorem delitem_absent_raises_witness:
  "\<exists>c1 c2. setitem (projr (lrucache_init 2)) (Some ''a'') (Some (1::int)) = Inr c1
     \<and> delitem c1 (Some ''a'') = Inr c2
     \<and> delitem c2 (Some ''a'') = Inl KeyError \<and> step c2 (Delete (Some ''a'')) = c2
     \<and> \<not> contains c2 (Some ''a'')"
proof -
  let ?c = "projr (lrucache_init 2) :: (string, int) lrucache"
  obtain c1 where c1: "setitem ?c (Some ''a'') (Some 1) = Inr c1"
    by (simp add: ev)
  have t: "table c1 (Some ''a'') = Some 1" using c1 by (auto simp add: ev)
  obtain c2 where c2: "delitem c1 (Some ''a'') = Inr c2"
    using t by (simp add: delitem_def dict_del_def Let_def)
  show ?thesis
    using delitem_absent_raises [of ?c "Some ''a''" "Some 1"] c1 c2 by blast
qed

text \<open>The second delete of the scenario of C2 raises.\<close>

theorem delitem_absent_counterexample:
  "delitem (run (projr (lrucache_init 2)) [Set (Some ''a'') (Some (1::int)), Delete (Some ''a'')])
     (Some ''a'') = Inl KeyError"
  by (simp add: ev)

subsection \<open>Setting after clear\<close>

text \<open>
  C4 at a cache of one node: after \<^verbatim>\<open>set("a", 1); clear()\<close> the table is empty, yet
  \<^verbatim>\<open>set("b", 2)\<close> raises \<^verbatim>\<open>KeyError\<close>, because the node at the tail still carries the
  key \<^verbatim>\<open>"a"\<close> and the insert path deletes that key from the table. On the freshly
  built cache the same set does not raise.
\<close>

theorem clear_then_set_raises:
  "len (clear (run (projr (lrucache_init 1)) [Set (Some ''a'') (Some (1::int))])) = 0 \<and>
   setitem (clear (run (projr (lrucache_init 1)) [Set (Some ''a'') (Some (1::int))]))
     (Some ''b'') (Some 2) = Inl KeyError \<and>
   setitem (projr (lrucache_init 1)) (Some ''b'') (Some (2::int)) \<noteq> Inl KeyError"
  by (simp add: ev)

subsection \<open>The key None\<close>

text \<open>
  C10: when the table has an entry for the key \<^verbatim>\<open>None\<close>, the node of that entry is
  \<^verbatim>\<open>head.prev\<close> and a key that is not in the table is set, the insert succeeds and
  removes nothing: \<^verbatim>\<open>None\<close> is still contained, its entry refers to the same node, whose
  key is now the new key, and the length has grown by one.
\<close>

theorem none_key_not_evicted:
  assumes "table c None = Some n" and "prev (nodes c ! head c) = n"
    and "key (nodes c ! n) = None" and "n < length (nodes c)"
    and "table c k = None" and "finite (dom (table c))"
  shows "\<exists>c'. setitem c k v = Inr c' \<and> contains c' None \<and> table c' None = Some n
           \<and> table c' k = Some n \<and> key (nodes c' ! n) = k
           \<and> dom (table c') = insert k (dom (table c)) \<and> len c' = len c + 1"
proof -
  have kn: "k \<noteq> None" using assms(1,5) by (cases k) simp_all
  have "k \<notin> dom (table c)" using assms by auto
  then have "card (insert k (dom (table c))) = card (dom (table c)) + 1"
    using assms(6) by simp
  then show ?thesis
    using assms kn
    by (auto simp: setitem_def Let_def set_key_def set_obj_def contains_def len_def)
qed

theorem none_key_not_evicted_witness:
  "\<exists>c'. setitem (run (projr (lrucache_init 1)) [Set None (Some (1::int))])
           (Some ''a'') (Some 2) = Inr c'
      \<and> contains c' None \<and> table c' None = Some 0 \<and> table c' (Some ''a'') = Some 0
      \<and> key (nodes c' ! 0) = Some ''a'' \<and> len c' = 2"
proof -
  let ?c = "run (projr (lrucache_init 1)) [Set None (Some (1::int))] :: (string, int) lrucache"
  have "table ?c None = Some 0" "prev (nodes ?c ! head ?c) = 0" "key (nodes ?c ! 0) = None"
    "0 < length (nodes ?c)" "table ?c (Some ''a'') = None" "finite (dom (table ?c))"
    "len ?c = 1"
    by (simp_all add: ev)
  then show ?thesis
    using none_key_not_evicted [of ?c 0 "Some ''a''" "Some 2"] by auto
qed

subsection \<open>Move to front\<close>

lemma mtf_fields: "map key (nodes (mtf c x)) = map key (nodes c)"
  "map obj (nodes (mtf c x)) = map obj (nodes c)"
  by (simp_all add: list_eq_iff_nth_eq)

text \<open>
  C6, as the code has it: on a well-formed ring, \<^verbatim>\<open>mtf(node)\<close> changes neither the head,
  nor the table, nor any key or object. If the node is not the head, the walk from the
  head afterwards is the old walk with the node taken out and put at the end, so the
  other nodes keep their order and \<^verbatim>\<open>node.next\<close> is the head. If the node is the head,
  or its \<^verbatim>\<open>next\<close> is already the head, the cache is left exactly as it was; so for the
  head of a ring of two or more nodes \<^verbatim>\<open>node.next\<close> is not the head afterwards.
\<close>

theorem mtf_correct:
  assumes "ring_ok c" and "x < length (nodes c)"
  shows "head (mtf c x) = head c \<and> table (mtf c x) = table c
       \<and> map key (nodes (mtf c x)) = map key (nodes c)
       \<and> map obj (nodes (mtf c x)) = map obj (nodes c)
       \<and> ring_ok (mtf c x)
       \<and> ring (mtf c x) = (if x = head c then ring c else remove1 x (ring c) @ [x])
       \<and> (x \<noteq> head c \<longrightarrow> nxt (nodes (mtf c x) ! x) = head c)
       \<and> (x = head c \<or> nxt (nodes c ! x) = head c \<longrightarrow> mtf c x = c)"
proof -
  let ?r = "if x = head c then ring c else remove1 x (ring c) @ [x]"
  note h = ring_ok_hd [OF assms(1)]
  have r: "is_ring (nodes (mtf c x)) ?r" by (rule mtf_ring(1) [OF assms])
  have "x \<noteq> head c \<Longrightarrow> remove1 x (ring c) \<noteq> [] \<and> hd (remove1 x (ring c)) = head c"
    using h(1,2) by (cases "ring c") auto
  then have "hd ?r = head (mtf c x)" using h(2) by (simp add: mtf_head)
  with r have "ring (mtf c x) = ?r" "ring_ok (mtf c x)"
    by (auto intro: ring_eq ring_okI)
  then show ?thesis
    using mtf_ring(2,3) [OF assms] by (simp add: mtf_head mtf_table mtf_fields)
qed

theorem mtf_correct_witness:
  "ring_ok (run (projr (lrucache_init 3)) [Set (Some ''a'') (Some (1::int))])
   \<and> ring (run (projr (lrucache_init 3)) [Set (Some ''a'') (Some (1::int))]) = [1, 0, 2]
   \<and> ring (mtf (run (projr (lrucache_init 3)) [Set (Some ''a'') (Some (1::int))]) 0) = [1, 2, 0]
   \<and> nxt (nodes (mtf (run (projr (lrucache_init 3)) [Set (Some ''a'') (Some (1::int))]) 0) ! 0) = 1
   \<and> mtf (run (projr (lrucache_init 3)) [Set (Some ''a'') (Some (1::int))]) 2
       = run (projr (lrucache_init 3)) [Set (Some ''a'') (Some (1::int))]"
proof -
  let ?c = "run (projr (lrucache_init 3)) [Set (Some ''a'') (Some (1::int))] :: (string, int) lrucache"
  have "cache_wf (projr (lrucache_init 3) :: (string, int) lrucache)"
    by (rule wf_init [of 3]) (simp add: lrucache_init_def)
  then have ok: "ring_ok ?c" using wf_run [of _ "[Set (Some ''a'') (Some (1::int))]"] by (simp add: cache_wf_def)
  have v: "ring ?c = [1, 0, 2]" "head ?c = 1" "length (nodes ?c) = 3" "nxt (nodes ?c ! 2) = 1"
    by code_simp+
  show ?thesis
    using ok mtf_correct [OF ok, of 0] mtf_correct [OF ok, of 2] by (simp add: v)
qed

text \<open>
  In the ring of two nodes that the constructor builds, \<^verbatim>\<open>mtf(head)\<close> does not make
  \<^verbatim>\<open>head.next\<close> the head.
\<close>

theorem mtf_head_counterexample:
  "ring_ok (projr (lrucache_init 2) :: (string, int) lrucache)
   \<and> head (projr (lrucache_init 2) :: (string, int) lrucache) = 0
   \<and> nxt (nodes (mtf (projr (lrucache_init 2) :: (string, int) lrucache) 0) ! 0)
       \<noteq> head (mtf (projr (lrucache_init 2) :: (string, int) lrucache) 0)"
proof -
  have "ring_ok (projr (lrucache_init 2) :: (string, int) lrucache)"
    by (rule lrucache_init_ok(1) [of 2]) (simp add: lrucache_init_def)
  then show ?thesis by (simp add: ev)
qed

subsection \<open>Setting twice\<close>

lemma set_obj_same: "obj (ns ! x) = v \<Longrightarrow> set_obj ns x v = ns"
  by (rule nodes_eqI) auto

lemma setitem_again:
  assumes "ring_ok c" and "table c k = Some (head c)" and "obj (nodes c ! head c) = v"
  shows "setitem c k v = Inr c"
proof -
  have "mtf c (head c) = c"
    using mtf_ring(2) [OF assms(1), of "head c"] ring_ok_hd(6) [OF assms(1)] by simp
  then show ?thesis
    using assms(2,3) by (simp add: setitem_hit set_obj_same)
qed

lemma setitem_result:
  assumes "cache_wf c" and "setitem c k v = Inr c'"
  shows "table c' k = Some (head c')" and "obj (nodes c' ! head c') = v"
proof -
  have "table c' k = Some (head c') \<and> obj (nodes c' ! head c') = v"
  proof (cases "table c k")
    case None
    have "prev (nodes c ! head c) < length (nodes c)"
      using assms(1) by (simp add: cache_wf_def ring_ok_tail)
    then show ?thesis
      using assms(2) None by (auto simp: setitem_miss Let_def split: if_splits)
  next
    case (Some x)
    then have "x < length (nodes c)" using assms(1) by (simp add: cache_wf_def refs_ok_def)
    then show ?thesis
      using assms(2) Some by (auto simp: setitem_hit mtf_table)
  qed
  then show "table c' k = Some (head c')" and "obj (nodes c' ! head c') = v" by simp_all
qed

text \<open>
  C9: in every state that a sequence of operations reaches from the constructor, a set
  that succeeds can be repeated and then returns the very same cache; and doing
  \<^verbatim>\<open>set(k, v)\<close> twice leaves the same cache (table, head and every node, hence length,
  keys, values and order) as doing it once.
\<close>

theorem setitem_idempotent:
  assumes "lrucache_init sz = Inr c0"
  shows "(\<forall>c1. setitem (run c0 ops) k v = Inr c1 \<longrightarrow> setitem c1 k v = Inr c1)
       \<and> step (step (run c0 ops) (Set k v)) (Set k v) = step (run c0 ops) (Set k v)"
proof -
  let ?c = "run c0 ops"
  have w: "cache_wf ?c" using assms by (intro wf_run wf_init)
  have a: "setitem c1 k v = Inr c1" if "setitem ?c k v = Inr c1" for c1
  proof -
    have "cache_wf c1" using w that by (rule wf_setitem)
    then have "ring_ok c1" by (simp add: cache_wf_def)
    then show ?thesis using setitem_result [OF w that] by (intro setitem_again)
  qed
  then show ?thesis by (auto split: sum.splits)
qed

theorem setitem_idempotent_witness:
  "step (step (run (projr (lrucache_init 2)) [Set (Some ''a'') (Some (1::int)), Set (Some ''b'') (Some 2)])
      (Set (Some ''a'') (Some 5))) (Set (Some ''a'') (Some 5))
   = step (run (projr (lrucache_init 2)) [Set (Some ''a'') (Some (1::int)), Set (Some ''b'') (Some 2)])
      (Set (Some ''a'') (Some 5))
   \<and> ring (step (run (projr (lrucache_init 2)) [Set (Some ''a'') (Some (1::int)), Set (Some ''b'') (Some 2)])
      (Set (Some ''a'') (Some 5))) = [1, 0]"
proof -
  have i: "lrucache_init 2 = Inr (projr (lrucache_init 2) :: (string, int) lrucache)"
    by (simp add: lrucache_init_def)
  have r: "ring (step (run (projr (lrucache_init 2))
        [Set (Some ''a'') (Some (1::int)), Set (Some ''b'') (Some 2)])
      (Set (Some ''a'') (Some 5))) = [1, 0]"
    by code_simp
  show ?thesis
    using setitem_idempotent [OF i, of "[Set (Some ''a'') (Some (1::int)), Set (Some ''b'') (Some 2)]"
        "Some ''a''" "Some 5"] r
    by simp
qed

subsection \<open>Lookup\<close>

text \<open>
  C7, for keys other than \<^verbatim>\<open>None\<close>: in every state that a sequence of operations
  reaches from the constructor, \<^verbatim>\<open>__getitem__\<close> raises \<^verbatim>\<open>KeyError\<close> exactly when the key
  is not in the table, and then the cache is unchanged. If moreover the sets of the
  sequence use keys other than \<^verbatim>\<open>None\<close>, then on success the node that the table gives
  for the key holds that key, the object of that node is returned, the node becomes the
  head and the first node of the walk, the other nodes keep their order, and the table
  and all keys and objects stay as they were.
\<close>

theorem getitem_correct:
  assumes "lrucache_init sz = Inr c0"
  shows "(getitem (run c0 ops) k = Inl KeyError \<longleftrightarrow> table (run c0 ops) k = None)
       \<and> (table (run c0 ops) k = None \<longrightarrow> step (run c0 ops) (Get k) = run c0 ops)
       \<and> ((\<forall>op\<in>set ops. proper_key op) \<longrightarrow>
           (\<forall>x. table (run c0 ops) k = Some x \<longrightarrow>
            key (nodes (run c0 ops) ! x) = k \<and>
            (\<exists>c'. getitem (run c0 ops) k = Inr (obj (nodes (run c0 ops) ! x), c')
               \<and> head c' = x \<and> key (nodes c' ! head c') = k
               \<and> ring c' = x # remove1 x (ring (run c0 ops))
               \<and> table c' = table (run c0 ops)
               \<and> map key (nodes c') = map key (nodes (run c0 ops))
               \<and> map obj (nodes c') = map obj (nodes (run c0 ops)))))"
proof -
  let ?c = "run c0 ops"
  have w: "cache_wf ?c" using assms by (intro wf_run wf_init)
  have r: "ring ((mtf ?c x)\<lparr>head := x\<rparr>) = x # remove1 x (ring ?c)" if "table ?c k = Some x" for x
    using w that by (intro promote(1)) (auto simp: cache_wf_def refs_ok_def)
  have t: "key (nodes ?c ! x) = k"
    if "\<forall>op\<in>set ops. proper_key op" and "table ?c k = Some x" for x
  proof -
    have "tbl_ok ?c" using assms that(1) by (intro tbl_ok_run wf_init tbl_ok_init)
    then show ?thesis using that(2) by (simp add: tbl_okD)
  qed
  have a: "getitem ?c k = Inl KeyError \<longleftrightarrow> table ?c k = None"
    by (simp add: getitem_def Let_def split: option.splits)
  have b: "table ?c k = None \<longrightarrow> step ?c (Get k) = ?c"
    by (simp add: getitem_def)
  have c: "key (nodes ?c ! x) = k \<and>
            (\<exists>c'. getitem ?c k = Inr (obj (nodes ?c ! x), c')
               \<and> head c' = x \<and> key (nodes c' ! head c') = k
               \<and> ring c' = x # remove1 x (ring ?c)
               \<and> table c' = table ?c
               \<and> map key (nodes c') = map key (nodes ?c)
               \<and> map obj (nodes c') = map obj (nodes ?c))"
    if p: "\<forall>op\<in>set ops. proper_key op" and x: "table ?c k = Some x" for x
    using t [OF p x] r [OF x] x
    by (simp add: getitem_def Let_def mtf_table list_eq_iff_nth_eq)
  show ?thesis using a b c by blast
qed

theorem getitem_correct_witness:
  "getitem (run (projr (lrucache_init 3)) [Set (Some ''a'') (Some (1::int)), Set (Some ''b'') (Some 2)])
      (Some ''x'') = Inl KeyError
   \<and> key (nodes (run (projr (lrucache_init 3))
        [Set (Some ''a'') (Some (1::int)), Set (Some ''b'') (Some 2)]) ! 1) = Some ''a''
   \<and> (\<exists>c'. getitem (run (projr (lrucache_init 3)) [Set (Some ''a'') (Some (1::int)), Set (Some ''b'') (Some 2)])
        (Some ''a'') = Inr (Some 1, c') \<and> head c' = 1 \<and> key (nodes c' ! head c') = Some ''a''
        \<and> ring c' = [1, 2, 0])"
proof -
  let ?ops = "[Set (Some ''a'') (Some (1::int)), Set (Some ''b'') (Some 2)] :: (string, int) op list"
  let ?c = "run (projr (lrucache_init 3)) ?ops"
  have i: "lrucache_init 3 = Inr (projr (lrucache_init 3) :: (string, int) lrucache)"
    by (simp add: lrucache_init_def)
  have v: "table ?c (Some ''x'') = None" "table ?c (Some ''a'') = Some 1"
    "obj (nodes ?c ! Suc 0) = Some 1" "ring ?c = [2, 1, 0]"
    by code_simp+
  have p: "\<forall>op\<in>set ?ops. proper_key op" by simp
  show ?thesis
    using getitem_correct [OF i, of ?ops "Some ''x''"] getitem_correct [OF i, of ?ops "Some ''a''"] p
    by (auto simp: v)
qed

text \<open>
  After \<^verbatim>\<open>a[None] = 1; a["a"] = 2; a["b"] = 3\<close> on a cache of two nodes, the table's
  node for \<^verbatim>\<open>None\<close> holds the key \<^verbatim>\<open>"b"\<close>: \<^verbatim>\<open>a[None]\<close> returns 3 and the head becomes
  the node holding \<^verbatim>\<open>"b"\<close>.
\<close>

theorem getitem_none_counterexample:
  "map_sum id fst (getitem (run (projr (lrucache_init 2))
       [Set None (Some (1::int)), Set (Some ''a'') (Some 2), Set (Some ''b'') (Some 3)]) None)
     = Inr (Some 3)
   \<and> key (nodes (step (run (projr (lrucache_init 2))
       [Set None (Some (1::int)), Set (Some ''a'') (Some 2), Set (Some ''b'') (Some 3)]) (Get None))
       ! head (step (run (projr (lrucache_init 2))
       [Set None (Some (1::int)), Set (Some ''a'') (Some 2), Set (Some ''b'') (Some 3)]) (Get None)))
     = Some ''b''"
  by code_simp

subsection \<open>The capacity\<close>

text \<open>
  C5, for keys other than \<^verbatim>\<open>None\<close>: in a cache built with a capacity, after every
  operation of every sequence of get, set, delete and clear whose sets use keys other
  than \<^verbatim>\<open>None\<close>, the length is at most the capacity.
\<close>

theorem capacity_invariant:
  assumes "lrucache_init sz = Inr c0" and "\<forall>op\<in>set ops. proper_key op"
  shows "len (run c0 (take n ops)) \<le> nat sz"
proof -
  have w: "cache_wf c0" and t: "tbl_ok c0" using assms(1) by (rule wf_init, rule tbl_ok_init)
  have "\<forall>op\<in>set (take n ops). proper_key op"
    using assms(2) by (auto dest: in_set_takeD)
  then have "tbl_ok (run c0 (take n ops))" by (rule tbl_ok_run [OF w t])
  then have "len (run c0 (take n ops)) \<le> length (nodes (run c0 (take n ops)))"
    using wf_run [OF w] by (intro len_le)
  then show ?thesis
    using run_nodes_length [OF w] lrucache_init_ok(3) [OF assms(1)] by simp
qed

theorem capacity_invariant_witness:
  "len (run (projr (lrucache_init 1))
     (take 3 [Set (Some ''a'') (Some (1::int)), Clear, Set (Some ''b'') None])) \<le> nat 1"
proof -
  have i: "lrucache_init 1 = Inr (projr (lrucache_init 1) :: (string, int) lrucache)"
    by (simp add: lrucache_init_def)
  show ?thesis
    by (rule capacity_invariant [OF i]) simp
qed

text \<open>With the key \<^verbatim>\<open>None\<close> a cache of capacity one reaches the length two.\<close>

theorem capacity_counterexample:
  "len (run (projr (lrucache_init 1)) [Set None (Some (1::int)), Set (Some ''a'') (Some 2)]) = 2"
  by (simp add: ev)

subsection \<open>Empty nodes\<close>

lemma val_ok_step:
  assumes "cache_wf c" and "tbl_ok c" and "val_ok c" and "proper_item op"
  shows "val_ok (step c op)"
proof (cases op)
  case (Get k)
  then show ?thesis
    using assms(3) by (auto simp: getitem_def Let_def val_ok_def split: option.splits)
next
  case (Set k v)
  show ?thesis
  proof (cases "table c k")
    case None
    have "prev (nodes c ! head c) < length (nodes c)"
      using assms(1) by (simp add: cache_wf_def ring_ok_tail)
    then show ?thesis
      using assms(3,4) Set None
      by (auto simp: setitem_miss Let_def val_ok_def split: if_splits)
  next
    case (Some x)
    then have "key (nodes c ! x) \<noteq> None" using tbl_okD [OF assms(2) Some] by simp
    then show ?thesis
      using assms(3,4) Set Some by (auto simp: setitem_hit val_ok_def)
  qed
next
  case (Delete k)
  then show ?thesis
    using assms(3)
    by (auto simp: delitem_def dict_del_def Let_def val_ok_def split: option.splits)
next
  case Clear
  then show ?thesis using assms(3) by (simp add: clear_def val_ok_def)
qed

lemma proper_item_key: "proper_item op \<Longrightarrow> proper_key op"
  by (cases op) simp_all

lemma val_ok_run:
  assumes "cache_wf c" and "tbl_ok c" and "val_ok c" and "\<forall>op\<in>set ops. proper_item op"
  shows "val_ok (run c ops)"
  using assms(4)
proof (induction ops rule: rev_induct)
  case Nil
  then show ?case using assms(3) by (simp add: run_def)
next
  case (snoc op ops)
  then have "\<forall>op\<in>set ops. proper_key op" by (simp add: proper_item_key)
  then have "tbl_ok (run c ops)" by (rule tbl_ok_run [OF assms(1,2)])
  then show ?case
    using snoc val_ok_step [OF wf_run [OF assms(1), of ops], of op] by (simp add: run_snoc)
qed

text \<open>
  C8, for keys and objects other than \<^verbatim>\<open>None\<close>: after every sequence of get, set, delete
  and clear whose sets give a key other than \<^verbatim>\<open>None\<close> and an object other than \<^verbatim>\<open>None\<close>,
  every node of the cache has the key \<^verbatim>\<open>None\<close> exactly when it has the object \<^verbatim>\<open>None\<close>.
\<close>

theorem slot_emptiness:
  assumes "lrucache_init sz = Inr c0" and "\<forall>op\<in>set ops. proper_item op"
    and "n < length (nodes (run c0 ops))"
  shows "(key (nodes (run c0 ops) ! n) = None) = (obj (nodes (run c0 ops) ! n) = None)"
proof -
  have "val_ok c0" using lrucache_init_ok(5) [OF assms(1)] by (simp add: val_ok_def all_empty_def)
  then have "val_ok (run c0 ops)"
    using assms(1,2) by (intro val_ok_run wf_init tbl_ok_init)
  then show ?thesis using assms(3) by (simp add: val_ok_def)
qed

theorem slot_emptiness_witness:
  "length (nodes (run (projr (lrucache_init 2))
      [Set (Some ''a'') (Some (1::int)), Set (Some ''b'') (Some 2), Delete (Some ''a'')])) = 2
   \<and> key (nodes (run (projr (lrucache_init 2))
      [Set (Some ''a'') (Some (1::int)), Set (Some ''b'') (Some 2), Delete (Some ''a'')]) ! 1) = None
   \<and> obj (nodes (run (projr (lrucache_init 2))
      [Set (Some ''a'') (Some (1::int)), Set (Some ''b'') (Some 2), Delete (Some ''a'')]) ! 1) = None
   \<and> key (nodes (run (projr (lrucache_init 2))
      [Set (Some ''a'') (Some (1::int)), Set (Some ''b'') (Some 2), Delete (Some ''a'')]) ! 0) \<noteq> None
   \<and> obj (nodes (run (projr (lrucache_init 2))
      [Set (Some ''a'') (Some (1::int)), Set (Some ''b'') (Some 2), Delete (Some ''a'')]) ! 0) \<noteq> None"
proof -
  let ?ops = "[Set (Some ''a'') (Some (1::int)), Set (Some ''b'') (Some 2), Delete (Some ''a'')]
    :: (string, int) op list"
  let ?c = "run (projr (lrucache_init 2)) ?ops"
  have i: "lrucache_init 2 = Inr (projr (lrucache_init 2) :: (string, int) lrucache)"
    by (simp add: lrucache_init_def)
  have l: "length (nodes ?c) = 2" and k: "key (nodes ?c ! 1) = None" "key (nodes ?c ! 0) \<noteq> None"
    by code_simp+
  have p: "\<forall>op\<in>set ?ops. proper_item op" by simp
  show ?thesis
    using slot_emptiness [OF i p, of 0] slot_emptiness [OF i p, of 1] l k by simp
qed

text \<open>
  A set with the object \<^verbatim>\<open>None\<close> leaves a node with a key and no object, and a set
  with the key \<^verbatim>\<open>None\<close> leaves a node with an object and no key.
\<close>

theorem slot_emptiness_counterexample:
  "key (nodes (run (projr (lrucache_init 1)) [Set (Some ''a'') (None :: int option)]) ! 0) = Some ''a''
   \<and> obj (nodes (run (projr (lrucache_init 1)) [Set (Some ''a'') (None :: int option)]) ! 0) = None
   \<and> key (nodes (run (projr (lrucache_init 1)) [Set (None :: string option) (Some (1::int))]) ! 0) = None
   \<and> obj (nodes (run (projr (lrucache_init 1)) [Set (None :: string option) (Some (1::int))]) ! 0) = Some 1"
  by code_simp

subsection \<open>The table and the ring agree\<close>

text \<open>
  C1, for keys other than \<^verbatim>\<open>None\<close> and without \<^verbatim>\<open>clear\<close>: in every state reached from
  the constructor by get, set and delete operations whose sets use keys other than
  \<^verbatim>\<open>None\<close>, the ring is well formed and has as many nodes as the capacity; the walk of \<^verbatim>\<open>len\<close> steps from the head visits the
  first \<^verbatim>\<open>len\<close> nodes of the ring; the keys met are exactly the keys of the table, each
  met once, each node met holds a key and is the table's node for it; the pairs met are
  those of the reference cache from the most to the least recently used; and all the
  other nodes of the ring, which follow up to the head, have no key.
\<close>

theorem index_ring_agreement:
  assumes "lrucache_init sz = Inr c0" and "\<forall>op\<in>set ops. proper_key op"
    and "Clear \<notin> set ops" and "c = run c0 ops"
  shows "ring_ok c \<and> int (length (nodes c)) = sz \<and> len c \<le> length (nodes c)
       \<and> walk (nodes c) (head c) (len c) = take (len c) (ring c)
       \<and> fst ` set (contents c) = dom (table c)
       \<and> distinct (map fst (contents c))
       \<and> (\<forall>n\<in>set (take (len c) (ring c)).
             key (nodes c ! n) \<noteq> None \<and> table c (key (nodes c ! n)) = Some n)
       \<and> (\<forall>n\<in>set (drop (len c) (ring c)). key (nodes c ! n) = None)
       \<and> contents c = rev (cache (simple_run (simple_init sz) ops))"
proof -
  have "cache_inv c \<and> rel c (simple_run (simple_init sz) ops)"
    unfolding assms(4) using assms(1-3) by (rule run_inv_no_clear)
  then have i: "cache_inv c" and r: "rel c (simple_run (simple_init sz) ops)" by simp_all
  note p = inv_parts [OF i]
  have ln: "int (length (nodes c)) = sz"
    unfolding assms(4)
    using run_nodes_length [OF wf_init [OF assms(1)], of ops] lrucache_init_ok(3,4) [OF assms(1)]
    by simp
  have le: "len c \<le> length (nodes c)" using p(1,2) by (rule len_le)
  then have w: "walk (nodes c) (head c) (len c) = take (len c) (ring c)"
    by (simp add: ring_def walk_take min_def)
  have co: "contents c = map (kv c) (occ c)" by (rule inv_contents [OF i])
  have "fst ` set (contents c) = (\<lambda>n. key (nodes c ! n)) ` set (occ c)"
    by (simp add: co image_image)
  then have d: "fst ` set (contents c) = dom (table c)" by (simp add: inv_dom [OF i])
  have "map fst (contents c) = map (\<lambda>n. key (nodes c ! n)) (occ c)" by (simp add: co)
  then have di: "distinct (map fst (contents c))" using inv_keys_distinct [OF i] by simp
  have t: "key (nodes c ! n) \<noteq> None \<and> table c (key (nodes c ! n)) = Some n"
    if "n \<in> set (take (len c) (ring c))" for n
  proof -
    from that have n: "n \<in> set (occ c)" by (simp add: inv_take(1) [OF i])
    then have "key (nodes c ! n) \<noteq> None" by (simp add: occ_set(1) [OF p(5)])
    moreover have "table c (key (nodes c ! n)) = Some n" using n by (simp add: inv_table [OF i])
    ultimately show ?thesis by simp
  qed
  have e: "key (nodes c ! n) = None" if "n \<in> set (drop (len c) (ring c))" for n
    using that by (simp add: inv_take(2) [OF i])
  have "contents c = rev (cache (simple_run (simple_init sz) ops))"
    using r by (simp add: co rel_def)
  then show ?thesis using p(5) ln le w d di t e by blast
qed

theorem index_ring_agreement_witness:
  "ring_ok (run (projr (lrucache_init 3))
      [Set (Some ''a'') (Some (1::int)), Set (Some ''b'') (Some 2), Get (Some ''a''),
       Set (Some ''c'') (Some 3), Delete (Some ''b'')])
   \<and> contents (run (projr (lrucache_init 3))
      [Set (Some ''a'') (Some (1::int)), Set (Some ''b'') (Some 2), Get (Some ''a''),
       Set (Some ''c'') (Some 3), Delete (Some ''b'')])
     = [(Some ''c'', Some 3), (Some ''a'', Some 1)]
   \<and> dom (table (run (projr (lrucache_init 3))
      [Set (Some ''a'') (Some (1::int)), Set (Some ''b'') (Some 2), Get (Some ''a''),
       Set (Some ''c'') (Some 3), Delete (Some ''b'')])) = {Some ''c'', Some ''a''}"
proof -
  let ?ops = "[Set (Some ''a'') (Some (1::int)), Set (Some ''b'') (Some 2), Get (Some ''a''),
       Set (Some ''c'') (Some 3), Delete (Some ''b'')] :: (string, int) op list"
  have i: "lrucache_init 3 = Inr (projr (lrucache_init 3) :: (string, int) lrucache)"
    by (simp add: lrucache_init_def)
  have p: "\<forall>op\<in>set ?ops. proper_key op" "Clear \<notin> set ?ops" by simp_all
  have s: "rev (cache (simple_run (simple_init 3) ?ops)) = [(Some ''c'', Some 3), (Some ''a'', Some 1)]"
    by code_simp
  note t = index_ring_agreement [OF i p refl]
  let ?c = "run (projr (lrucache_init 3)) ?ops"
  have r: "ring_ok ?c" using t by blast
  have "contents ?c = rev (cache (simple_run (simple_init 3) ?ops))" using t by blast
  then have c: "contents ?c = [(Some ''c'', Some 3), (Some ''a'', Some 1)]"
    by (simp only: s)
  have "fst ` set (contents ?c) = dom (table ?c)" using t by blast
  then have "dom (table ?c) = fst ` set [(Some ''c'', Some (3::int)), (Some ''a'', Some 1)]"
    by (simp only: c)
  then have d: "dom (table ?c) = {Some ''c'', Some ''a''}" by simp
  show ?thesis using r c d by blast
qed

text \<open>
  After \<^verbatim>\<open>a["a"] = 1; a.clear()\<close> on a cache of one node the length is 0 and the only
  node still has its key; after \<^verbatim>\<open>a[None] = 1\<close> the table has the key \<^verbatim>\<open>None\<close> and the
  only node has no key.
\<close>

theorem index_ring_counterexample:
  "len (run (projr (lrucache_init 1)) [Set (Some ''a'') (Some (1::int)), Clear]) = 0
   \<and> drop 0 (ring (run (projr (lrucache_init 1)) [Set (Some ''a'') (Some (1::int)), Clear])) = [0]
   \<and> key (nodes (run (projr (lrucache_init 1)) [Set (Some ''a'') (Some (1::int)), Clear]) ! 0)
       = Some ''a''
   \<and> contains (run (projr (lrucache_init 1)) [Set (None :: string option) (Some (1::int))]) None
   \<and> ring (run (projr (lrucache_init 1)) [Set (None :: string option) (Some (1::int))]) = [0]
   \<and> key (nodes (run (projr (lrucache_init 1)) [Set (None :: string option) (Some (1::int))]) ! 0)
       = None"
  by (simp add: ev)

subsection \<open>Eviction\<close>

text \<open>
  C3, for keys other than \<^verbatim>\<open>None\<close>: in every full state (the length is the capacity)
  reached from the constructor by get, set, delete and clear operations whose sets use
  keys other than \<^verbatim>\<open>None\<close>, a set of a key that is not in the table succeeds and removes
  from the table exactly the key of \<^verbatim>\<open>head.prev\<close>, which is in the table, is the last key
  of the walk from the head and is the key of the first, least recently used entry of
  the reference cache; no other key enters or leaves but the new one, and the length
  stays. A set of a key that is in the table succeeds, leaves the table as it is and
  stores the object in the key's node.
\<close>

theorem eviction_determinism:
  assumes "lrucache_init sz = Inr c0" and "\<forall>op\<in>set ops. proper_key op"
    and "c = run c0 ops" and "int (len c) = sz"
  shows "(table c k = None \<longrightarrow>
           (\<exists>c'. setitem c k v = Inr c'
              \<and> key (nodes c ! prev (nodes c ! head c)) \<in> dom (table c)
              \<and> dom (table c') = insert k (dom (table c) - {key (nodes c ! prev (nodes c ! head c))})
              \<and> len c' = len c
              \<and> key (nodes c ! prev (nodes c ! head c)) = fst (last (contents c))
              \<and> key (nodes c ! prev (nodes c ! head c))
                  = fst (hd (cache (simple_run (simple_init sz) ops)))))
       \<and> (\<forall>x. table c k = Some x \<longrightarrow>
           (\<exists>c'. setitem c k v = Inr c' \<and> table c' = table c
              \<and> key (nodes c' ! x) = k \<and> obj (nodes c' ! x) = v \<and> len c' = len c))"
proof -
  let ?s = "simple_run (simple_init sz) ops"
  have w: "cache_wf c" unfolding assms(3) using assms(1) by (intro wf_run wf_init)
  have t: "tbl_ok c"
    unfolding assms(3) using assms(1,2) by (intro tbl_ok_run wf_init tbl_ok_init)
  have "int (length (nodes c)) = sz"
    unfolding assms(3)
    using run_nodes_length [OF wf_init [OF assms(1)], of ops] lrucache_init_ok(3,4) [OF assms(1)]
    by simp
  then have full: "len c = length (nodes c)" using assms(4) by simp
  have sf: "stale_free c" using w t full by (rule full_stale_free)
  have "cache_inv c \<and> rel c ?s"
    unfolding assms(3) using assms(1,2) sf [unfolded assms(3)] by (rule run_inv)
  then have i: "cache_inv c" and r: "rel c ?s" by simp_all
  note p = inv_parts [OF i]
  note h = ring_ok_hd [OF p(5)]
  define x where "x = last (ring c)"
  define old where "old = key (nodes c ! x)"
  have px: "prev (nodes c ! head c) = x" by (simp add: x_def ring_ok_last [OF p(5)])
  have "x \<in> set (ring c)" unfolding x_def using h(1) by (rule last_in_set)
  then have xl: "x < length (nodes c)" unfolding h(4) by simp
  have lo: "length (occ c) = length (nodes c)" using full by (simp add: inv_len [OF i])
  then have on: "old \<noteq> None" using inv_full [OF i] by (simp add: old_def x_def)
  have ot: "table c old = Some x" using stale_freeD [OF sf xl] on by (simp add: old_def)
  have "take (len c) (ring c) = ring c" using full h(3) by simp
  then have oc: "occ c = ring c" by (simp add: inv_take(1) [OF i])
  have co: "contents c = map (kv c) (ring c)" by (simp add: inv_contents [OF i] oc)
  have la: "fst (last (contents c)) = old"
    using h(1) by (simp add: co last_map old_def x_def)
  have rc: "rev (cache ?s) = contents c" using r by (simp add: rel_def inv_contents [OF i])
  have "cache ?s \<noteq> []" using rc co h(1) by auto
  then have "hd (cache ?s) = last (rev (cache ?s))" by (simp add: last_rev)
  then have hd: "fst (hd (cache ?s)) = old" by (simp add: rc la)
  have fin: "finite (dom (table c))" using w by (simp add: cache_wf_def refs_ok_def)
  have a: "\<exists>c'. setitem c k v = Inr c' \<and> old \<in> dom (table c)
              \<and> dom (table c') = insert k (dom (table c) - {old}) \<and> len c' = len c"
    if n: "table c k = None"
  proof -
    define c' where "c' = \<lparr>table = ((table c)(old := None))(k \<mapsto> x), head = x,
        nodes = set_obj (set_key (nodes c) x k) x v\<rparr>"
    have s: "setitem c k v = Inr c'"
      using n on ot xl by (simp add: setitem_miss Let_def px old_def [symmetric] c'_def)
    have d: "dom (table c') = insert k (dom (table c) - {old})"
      by (auto simp: c'_def)
    have od: "old \<in> dom (table c)" using ot by auto
    have kd: "k \<notin> dom (table c)" using n by auto
    have "card (insert k (dom (table c) - {old})) = Suc (card (dom (table c) - {old}))"
      using fin kd by simp
    also have "\<dots> = card (dom (table c))"
      using card.remove [OF fin od] by simp
    finally have "len c' = len c" by (simp add: len_def d)
    then show ?thesis using s d od by blast
  qed
  have b: "\<exists>c'. setitem c k v = Inr c' \<and> table c' = table c
              \<and> key (nodes c' ! y) = k \<and> obj (nodes c' ! y) = v \<and> len c' = len c"
    if y: "table c k = Some y" for y
  proof -
    define c' where "c' = step c (Set k v)"
    have s: "setitem c k v = Inr c'" using y by (simp add: c'_def setitem_hit)
    note e = set_hit_effect [where v = v, OF w y, folded c'_def]
    have "key (nodes c' ! y) = k" using hit_key(1) [OF i y] by (simp add: e(4))
    moreover have "len c' = len c" by (simp add: len_def e(2))
    ultimately show ?thesis using s e(2) by (simp add: e(5))
  qed
  show ?thesis using a b la hd unfolding px old_def [symmetric] by (simp only:) blast
qed

theorem eviction_determinism_witness:
  "int (len (run (projr (lrucache_init 2))
        [Set (Some ''a'') (Some (1::int)), Set (Some ''b'') (Some 2), Get (Some ''a'')])) = 2
   \<and> (\<exists>c'. setitem (run (projr (lrucache_init 2))
            [Set (Some ''a'') (Some (1::int)), Set (Some ''b'') (Some 2), Get (Some ''a'')])
            (Some ''c'') (Some 3) = Inr c'
        \<and> dom (table c') = insert (Some ''c'') (dom (table (run (projr (lrucache_init 2))
            [Set (Some ''a'') (Some (1::int)), Set (Some ''b'') (Some 2), Get (Some ''a'')]))
              - {Some ''b''})
        \<and> len c' = 2)
   \<and> fst (hd (cache (simple_run (simple_init 2)
        [Set (Some ''a'') (Some (1::int)), Set (Some ''b'') (Some 2), Get (Some ''a'')])))
     = Some ''b''"
proof -
  let ?ops = "[Set (Some ''a'') (Some (1::int)), Set (Some ''b'') (Some 2), Get (Some ''a'')]
    :: (string, int) op list"
  let ?c = "run (projr (lrucache_init 2)) ?ops"
  have i: "lrucache_init 2 = Inr (projr (lrucache_init 2) :: (string, int) lrucache)"
    by (simp add: lrucache_init_def)
  have p: "\<forall>op\<in>set ?ops. proper_key op" "Clear \<notin> set ?ops" by simp_all
  have "cache_inv ?c" using run_inv_no_clear [OF i p] by simp
  then have "len ?c = length (occ ?c)" by (rule inv_len)
  moreover have "length (occ ?c) = 2" "length (nodes ?c) = 2" by code_simp+
  ultimately have f: "int (len ?c) = 2" and l: "len ?c = 2" by simp_all
  have v: "table ?c (Some ''c'') = None"
    "key (nodes ?c ! prev (nodes ?c ! head ?c)) = Some ''b''"
    "fst (hd (cache (simple_run (simple_init 2) ?ops))) = Some ''b''"
    by code_simp+
  show ?thesis
    using eviction_determinism [OF i p(1) refl f, of "Some ''c''" "Some 3"] f
    by (simp add: v l) blast
qed

text \<open>
  After \<^verbatim>\<open>a[None] = 1\<close> a cache of one node is full; the set of the new key \<^verbatim>\<open>"a"\<close> then
  removes no key from the table.
\<close>

theorem eviction_counterexample:
  "len (run (projr (lrucache_init 1)) [Set (None :: string option) (Some (1::int))]) = 1
   \<and> length (nodes (run (projr (lrucache_init 1)) [Set (None :: string option) (Some (1::int))])) = 1
   \<and> dom (table (run (projr (lrucache_init 1)) [Set (None :: string option) (Some (1::int))]))
       = {None}
   \<and> dom (table (step (run (projr (lrucache_init 1)) [Set (None :: string option) (Some (1::int))])
         (Set (Some ''a'') (Some 2)))) = {Some ''a'', None}"
  by (simp add: ev)


end
